theory Spec2Isabelle
  imports Main
begin

section \<open>bed: match records and patch application\<close>

text \<open>
  A shallow embedding of \<^verbatim>\<open>main.go\<close> of bed, the bulk command line text editor.
  Byte slices and Go strings are \<open>string\<close> (lists of 8-bit characters). Errors returned
  by the Go functions and run-time panics are values of the type \<open>error\<close>.
\<close>

subsection \<open>Go's \<^verbatim>\<open>int\<close>\<close>

text \<open>
  \<^verbatim>\<open>Pos\<close> and \<^verbatim>\<open>Len\<close> are Go \<^verbatim>\<open>int\<close>s, taken here at 64 bits. They are modelled as
  integers that stay in the 64-bit two's complement range; every addition and subtraction the
  source performs on them goes through \<open>wrap\<close>, which is the identity on that range and
  wraps around outside of it, as Go's arithmetic does.
\<close>

definition min_int :: int where
  "min_int = - (2 ^ 63)"

definition max_int :: int where
  "max_int = 2 ^ 63 - 1"

definition in_int :: "int \<Rightarrow> bool" where
  "in_int x \<longleftrightarrow> min_int \<le> x \<and> x \<le> max_int"

definition wrap :: "int \<Rightarrow> int" where
  "wrap x = (x + 2 ^ 63) mod 2 ^ 64 - 2 ^ 63"

subsection \<open>Match records\<close>

text \<open>
  \<^verbatim>\<open>type Match struct { Path string; Pos int; Len int; Data []byte }\<close>
\<close>

record Match =
  Path :: string
  Pos :: int
  Len :: int
  Data :: string

datatype error =
    ReadError          \<comment> \<open>\<^verbatim>\<open>ioutil.ReadFile\<close> failed\<close>
  | StatError          \<comment> \<open>\<^verbatim>\<open>os.Stat\<close> failed\<close>
  | WriteError         \<comment> \<open>\<^verbatim>\<open>ioutil.WriteFile\<close> failed\<close>
  | MissingTags        \<comment> \<open>"missing #bed:begin or #bed:end tags"\<close>
  | JSONError          \<comment> \<open>any error returned by \<^verbatim>\<open>json.Unmarshal\<close>\<close>
  | SliceBounds        \<comment> \<open>run-time panic: slice bounds out of range\<close>
  | BeyondLength       \<comment> \<open>a slice bound above \<^verbatim>\<open>len(data)\<close> that Go checks against \<^verbatim>\<open>cap(data)\<close>\<close>

subsection \<open>The file system\<close>

text \<open>
  The files the program reads and rewrites: a map from path to content and permission bits.
  \<^verbatim>\<open>ioutil.ReadFile\<close> fails on a missing file and on one without the owner's read bit (0400),
  \<^verbatim>\<open>ioutil.WriteFile\<close> on an existing file replaces the content, keeps the mode of the file,
  and fails without the owner's write bit (0200); \<^verbatim>\<open>os.Stat\<close> fails on a missing file.
\<close>

record file_state =
  content :: string
  mode :: nat

type_synonym fs = "string \<Rightarrow> file_state option"

definition readable :: "file_state \<Rightarrow> bool" where
  "readable f \<longleftrightarrow> odd (mode f div 256)"

definition writable :: "file_state \<Rightarrow> bool" where
  "writable f \<longleftrightarrow> odd (mode f div 128)"

definition ReadFile :: "fs \<Rightarrow> string \<Rightarrow> error + string" where
  "ReadFile files path =
     (case files path of
        None \<Rightarrow> Inl ReadError
      | Some f \<Rightarrow> if readable f then Inr (content f) else Inl ReadError)"

definition Stat :: "fs \<Rightarrow> string \<Rightarrow> error + nat" where
  "Stat files path =
     (case files path of None \<Rightarrow> Inl StatError | Some f \<Rightarrow> Inr (mode f))"

definition WriteFile :: "fs \<Rightarrow> string \<Rightarrow> string \<Rightarrow> nat \<Rightarrow> error + fs" where
  "WriteFile files path data perm =
     (case files path of
        None \<Rightarrow> Inr (files(path \<mapsto> \<lparr>content = data, mode = perm\<rparr>))
      | Some f \<Rightarrow>
          if writable f then Inr (files(path \<mapsto> f\<lparr>content := data\<rparr>)) else Inl WriteError)"

subsection \<open>applyPathMatches\<close>

text \<open>
  The body of the inner loop of \<^verbatim>\<open>applyPathMatches\<close>, on one later record:
  \<^verbatim>\<open>if matches[j].Pos >= m.Pos { matches[j].Pos += len(m.Data) - m.Len }\<close>
\<close>

definition shift_pos :: "Match \<Rightarrow> Match \<Rightarrow> Match" where
  "shift_pos m later =
     (if Pos m \<le> Pos later
      then later\<lparr>Pos := wrap (Pos later + wrap (int (length (Data m)) - Len m))\<rparr>
      else later)"

text \<open>
  The inner loop, \<^verbatim>\<open>for j := i + 1; j < len(matches); j++\<close>, from index \<open>j\<close> on. The
  records of a group are distinct objects, so the loop leaves \<^verbatim>\<open>m\<close> itself alone.
\<close>

function shift_later :: "Match \<Rightarrow> nat \<Rightarrow> Match list \<Rightarrow> Match list" where
  "shift_later m j matches =
     (if j < length matches
      then shift_later m (Suc j) (matches[j := shift_pos m (matches ! j)])
      else matches)"
  by pat_completeness auto
termination
  by (relation "measure (\<lambda>(m, j, matches). length matches - j)") auto

declare shift_later.simps [simp del]

lemma length_shift_later [simp]: "length (shift_later m j matches) = length matches"
proof (induction m j matches rule: shift_later.induct)
  case (1 m j matches)
  show ?case
  proof (cases "j < length matches")
    case True
    with "1" show ?thesis
      by (subst shift_later.simps) simp
  next
    case False
    then show ?thesis
      by (subst shift_later.simps) simp
  qed
qed

text \<open>
  The outer loop, from index \<open>i\<close> on. \<^verbatim>\<open>data[:start:start]\<close> panics when \<open>start\<close> is negative
  or above \<^verbatim>\<open>cap(data)\<close>, \<^verbatim>\<open>data[end:]\<close> when \<open>end\<close> is negative or above \<^verbatim>\<open>len(data)\<close>.
  Both appends copy (the capacity of \<open>prefix\<close> and of \<open>mid\<close> is their length), so the new
  content is \<open>prefix @ m.Data @ suffix\<close>. The capacity of the buffer is not part of the
  model: a \<open>start\<close> above \<^verbatim>\<open>len(data)\<close> with an \<open>end\<close> inside it, possible only for a
  negative \<^verbatim>\<open>Len\<close>, is reported as \<open>BeyondLength\<close> (Go panics there or splices bytes of the
  spare capacity).
\<close>

function apply_from :: "nat \<Rightarrow> string \<Rightarrow> Match list \<Rightarrow> error + string" where
  "apply_from i data matches =
     (if i < length matches then
        (let m = matches ! i;
             start = Pos m;
             end = wrap (Pos m + Len m)
         in if start < 0 \<or> end < 0 \<or> int (length data) < end then Inl SliceBounds
            else if int (length data) < start then Inl BeyondLength
            else apply_from (Suc i)
                   (take (nat start) data @ Data m @ drop (nat end) data)
                   (shift_later m (Suc i) matches))
      else Inr data)"
  by pat_completeness auto
termination
  by (relation "measure (\<lambda>(i, data, matches). length matches - i)") auto

declare apply_from.simps [simp del]

text \<open>
  \<^verbatim>\<open>applyPathMatches\<close>: read the file, run the loop, stat the file for its mode, write back.
\<close>

definition applyPathMatches :: "fs \<Rightarrow> string \<Rightarrow> Match list \<Rightarrow> error + fs" where
  "applyPathMatches files path matches =
     (case ReadFile files path of
        Inl err \<Rightarrow> Inl err
      | Inr data \<Rightarrow>
          (case apply_from 0 data matches of
             Inl err \<Rightarrow> Inl err
           | Inr data' \<Rightarrow>
               (case Stat files path of
                  Inl err \<Rightarrow> Inl err
                | Inr perm \<Rightarrow> WriteFile files path data' perm)))"

subsection \<open>groupMatchesByPath and ApplyMatches\<close>







subsection \<open>The Matcher\<close>

text \<open>
  A compiled pattern is used through \<^verbatim>\<open>re.FindAllIndex(data, -1)\<close> and
  \<^verbatim>\<open>re.FindAll(data, -1)\<close> only. The regular expression engine is not part of the
  program: a pattern is modelled by the spans \<open>(start, end)\<close> that \<^verbatim>\<open>FindAllIndex\<close> returns
  on a content, and \<^verbatim>\<open>FindAll\<close> returns the sub-slices \<^verbatim>\<open>data[start:end]\<close> of the same
  spans. \<open>spans_ok\<close> is what the engine promises of the spans: they lie inside the content,
  whose length is a Go \<^verbatim>\<open>int\<close>.
\<close>

type_synonym regexp = "string \<Rightarrow> (int \<times> int) list"

definition slice :: "string \<Rightarrow> int \<Rightarrow> int \<Rightarrow> string" where
  "slice data start end = drop (nat start) (take (nat end) data)"

definition FindAllIndex :: "regexp \<Rightarrow> string \<Rightarrow> (int \<times> int) list" where
  "FindAllIndex re data = re data"

definition FindAll :: "regexp \<Rightarrow> string \<Rightarrow> string list" where
  "FindAll re data = map (\<lambda>(start, end). slice data start end) (re data)"

definition spans_ok :: "string \<Rightarrow> (int \<times> int) list \<Rightarrow> bool" where
  "spans_ok data spans \<longleftrightarrow>
     int (length data) \<le> max_int \<and>
     list_all (\<lambda>(start, end). 0 \<le> start \<and> start \<le> end \<and> end \<le> int (length data)) spans"

text \<open>
  \<^verbatim>\<open>FindAllIndexPath\<close>: one record per span, in the order of the spans.
\<close>

definition FindAllIndexPath :: "regexp \<Rightarrow> fs \<Rightarrow> string \<Rightarrow> error + Match list" where
  "FindAllIndexPath re files path =
     (case ReadFile files path of
        Inl err \<Rightarrow> Inl err
      | Inr data \<Rightarrow>
          (let a = FindAllIndex re data;
               b = FindAll re data
           in Inr (map (\<lambda>i. \<lparr>Path = path,
                              Pos = fst (a ! i),
                              Len = wrap (snd (a ! i) - fst (a ! i)),
                              Data = b ! i\<rparr>)
                    [0..<length a])))"

text \<open>
  \<^verbatim>\<open>FindAllIndexPaths\<close>: the records of every path, in the order of the paths; the first
  file that cannot be read fails the whole scan.
\<close>

fun FindAllIndexPaths :: "regexp \<Rightarrow> fs \<Rightarrow> string list \<Rightarrow> error + Match list" where
  "FindAllIndexPaths re files [] = Inr []"
| "FindAllIndexPaths re files (path # paths) =
     (case FindAllIndexPath re files path of
        Inl err \<Rightarrow> Inl err
      | Inr m \<Rightarrow>
          (case FindAllIndexPaths re files paths of
             Inl err \<Rightarrow> Inl err
           | Inr matches \<Rightarrow> Inr (m @ matches)))"

text \<open>
  The record that \<^verbatim>\<open>FindAllIndexPath\<close> builds for one span of a content.
\<close>

definition match_of :: "string \<Rightarrow> string \<Rightarrow> int \<times> int \<Rightarrow> Match" where
  "match_of path data span =
     \<lparr>Path = path, Pos = fst span, Len = snd span - fst span,
      Data = slice data (fst span) (snd span)\<rparr>"

subsection \<open>Preconditions of patch application\<close>

text \<open>
  The length of a Go slice is an \<^verbatim>\<open>int\<close>.
\<close>

definition go_slice :: "string \<Rightarrow> bool" where
  "go_slice data \<longleftrightarrow> int (length data) \<le> max_int"

text \<open>
  \<open>each_splice P i data matches\<close>: \<open>P\<close> holds of the content and of the record at the
  moment each record from index \<open>i\<close> on is spliced, that is, of the content as rewritten
  by the records before it and of the record with its offset as shifted by them. The content
  and the records evolve as in \<open>apply_from\<close>.
\<close>

function each_splice :: "(string \<Rightarrow> Match \<Rightarrow> bool) \<Rightarrow> nat \<Rightarrow> string \<Rightarrow> Match list \<Rightarrow> bool" where
  "each_splice P i data matches =
     (if i < length matches then
        (let m = matches ! i
         in P data m \<and>
            each_splice P (Suc i)
              (take (nat (Pos m)) data @ Data m @ drop (nat (wrap (Pos m + Len m))) data)
              (shift_later m (Suc i) matches))
      else True)"
  by pat_completeness auto
termination
  by (relation "measure (\<lambda>(P, i, data, matches). length matches - i)") auto

declare each_splice.simps [simp del]

subsection \<open>The block pattern\<close>

text \<open>
  \<^verbatim>\<open>matchTextRegex = regexp.MustCompile(`(?s)#bed:begin ([^\n]+)\n(.*?)\n#bed:end`)\<close>.
  The pattern is fixed, so its matcher is written out here; it is proved below to be the
  backtracking search on the pattern itself. Go's engine returns, at the leftmost position
  where a match exists, the match a backtracking search finds first:
  \<^item> \<^verbatim>\<open>#bed:begin \<close> is literal text;
  \<^item> \<^verbatim>\<open>([^\n]+)\<close> is greedy and must be followed by a newline, which it cannot contain: it
    takes every byte up to the next newline, and at least one;
  \<^item> \<^verbatim>\<open>(.*?)\<close> is lazy and, under the flag \<^verbatim>\<open>s\<close>, crosses newlines: it takes the shortest
    text that is followed by \<^verbatim>\<open>\n#bed:end\<close>;
  \<^item> nothing is required after \<^verbatim>\<open>#bed:end\<close>.
\<close>

abbreviation nl :: char where
  "nl \<equiv> CHR 0x0A"

abbreviation dquote :: char where
  "dquote \<equiv> CHR 0x22"

abbreviation bslash :: char where
  "bslash \<equiv> CHR 0x5C"

definition begin_tag :: string where
  "begin_tag = ''#bed:begin ''"

definition end_tag :: string where
  "end_tag = ''\<newline>#bed:end''"

definition strip_prefix :: "string \<Rightarrow> string \<Rightarrow> string option" where
  "strip_prefix p s = (if take (length p) s = p then Some (drop (length p) s) else None)"

text \<open>
  \<^verbatim>\<open>(.*?)\n#bed:end\<close>: the body and the text after the end tag.
\<close>

fun lazy_body :: "string \<Rightarrow> (string \<times> string) option" where
  "lazy_body [] = None"
| "lazy_body (c # s) =
     (case strip_prefix end_tag (c # s) of
        Some rest \<Rightarrow> Some ([], rest)
      | None \<Rightarrow>
          (case lazy_body s of
             None \<Rightarrow> None
           | Some (body, rest) \<Rightarrow> Some (c # body, rest)))"

text \<open>
  The pattern at the start of a text: the header, the body and the text after the match.
\<close>

definition match_at :: "string \<Rightarrow> (string \<times> string \<times> string) option" where
  "match_at s =
     (case strip_prefix begin_tag s of
        None \<Rightarrow> None
      | Some t \<Rightarrow>
          (let hdr = takeWhile (\<lambda>c. c \<noteq> nl) t
           in if hdr = [] then None
              else (case dropWhile (\<lambda>c. c \<noteq> nl) t of
                      [] \<Rightarrow> None
                    | _ # u \<Rightarrow>
                        (case lazy_body u of
                           None \<Rightarrow> None
                         | Some (body, rest) \<Rightarrow> Some (hdr, body, rest)))))"

text \<open>
  \<^verbatim>\<open>matchTextRegex.FindSubmatch(data)\<close>: the two groups of the leftmost match.
\<close>

fun FindSubmatch :: "string \<Rightarrow> (string \<times> string) option" where
  "FindSubmatch [] = None"
| "FindSubmatch (c # s) =
     (case match_at (c # s) of
        Some (hdr, body, rest) \<Rightarrow> Some (hdr, body)
      | None \<Rightarrow> FindSubmatch s)"

lemma strip_prefix_Some: "strip_prefix p s = Some t \<longleftrightarrow> s = p @ t"
  by (auto simp: strip_prefix_def) (metis append_take_drop_id)

lemma lazy_body_shape:
  "lazy_body s = Some (body, rest) \<Longrightarrow> s = body @ end_tag @ rest"
proof (induction s arbitrary: body)
  case Nil
  then show ?case by simp
next
  case (Cons c s)
  show ?case
  proof (cases "strip_prefix end_tag (c # s)")
    case (Some r)
    with Cons.prems have "body = []" "rest = r" by simp_all
    moreover from Some have "c # s = end_tag @ r"
      by (simp add: strip_prefix_Some)
    ultimately show ?thesis by simp
  next
    case None
    with Cons.prems obtain b where "lazy_body s = Some (b, rest)" "body = c # b"
      by (auto split: option.splits)
    with Cons.IH show ?thesis by simp
  qed
qed

lemma match_at_shape:
  assumes "match_at s = Some (hdr, body, rest)"
  shows "s = begin_tag @ hdr @ nl # body @ end_tag @ rest \<and> hdr \<noteq> [] \<and> nl \<notin> set hdr"
proof (cases "strip_prefix begin_tag s")
  case None
  with assms show ?thesis by (simp add: match_at_def)
next
  case (Some t)
  let ?h = "takeWhile (\<lambda>c. c \<noteq> nl) t"
  let ?d = "dropWhile (\<lambda>c. c \<noteq> nl) t"
  from assms Some have ne: "?h \<noteq> []"
    by (auto simp: match_at_def Let_def split: if_splits)
  show ?thesis
  proof (cases ?d)
    case Nil
    with assms Some ne show ?thesis by (simp add: match_at_def Let_def)
  next
    case (Cons x u)
    have "x = hd ?d" using Cons by simp
    moreover have "\<not> (hd ?d \<noteq> nl)"
      using Cons by (intro hd_dropWhile [of "\<lambda>c. c \<noteq> nl" t]) simp
    ultimately have x: "x = nl" by simp
    from assms Some ne Cons have b: "lazy_body u = Some (body, rest)" and h: "hdr = ?h"
      by (auto simp: match_at_def Let_def split: option.splits)
    have "t = ?h @ ?d" by simp
    with Cons x h have "t = hdr @ nl # u" by simp
    moreover from Some have "s = begin_tag @ t" by (simp add: strip_prefix_Some)
    moreover note lazy_body_shape [OF b]
    moreover have "nl \<notin> set hdr"
      unfolding h by (auto dest: set_takeWhileD)
    ultimately show ?thesis using ne h by simp
  qed
qed

lemma match_at_shorter:
  "match_at s = Some (hdr, body, rest) \<Longrightarrow> length rest < length s"
  by (drule match_at_shape) simp

text \<open>
  \<^verbatim>\<open>matchTextRegex.FindAll(data, -1)\<close>: the texts of the successive matches, each search
  starting where the match before it ended.
\<close>

function FindAllBlocks :: "string \<Rightarrow> string list" where
  "FindAllBlocks [] = []"
| "FindAllBlocks (c # s) =
     (case match_at (c # s) of
        Some (hdr, body, rest) \<Rightarrow> (begin_tag @ hdr @ nl # body @ end_tag) # FindAllBlocks rest
      | None \<Rightarrow> FindAllBlocks s)"
  by pat_completeness auto
termination
  by (relation "measure length") (auto dest: match_at_shorter)

subsection \<open>The pattern as a regular expression\<close>

text \<open>
  The operators that occur in the pattern: literal text, \<^verbatim>\<open>[^c]\<close>, \<^verbatim>\<open>.\<close> under the flag
  \<^verbatim>\<open>s\<close>, concatenation, greedy \<^verbatim>\<open>+\<close>, lazy \<^verbatim>\<open>*?\<close> and a capturing group.
\<close>

datatype regex =
    Lit string
  | NotChar char
  | AnyChar
  | Concat regex regex
  | Plus regex
  | StarLazy regex
  | Group regex

text \<open>
  The backtracking search that defines which match Go's engine reports at a position: the
  greedy \<^verbatim>\<open>+\<close> tries one more repetition before it tries the rest of the pattern, the lazy
  \<^verbatim>\<open>*?\<close> tries the rest of the pattern before it tries one more repetition. \<^term>\<open>k\<close> is
  the rest of the pattern, \<^term>\<open>caps\<close> the text of the groups closed so far. A repetition
  that consumed nothing is not repeated. Go matches runes and the model bytes; the two agree
  on this pattern, whose literal text is ASCII and whose \<^verbatim>\<open>[^\n]\<close> and \<^verbatim>\<open>.\<close> take
  every byte of a rune other than the newline.
\<close>

function backtrack ::
  "regex \<Rightarrow> string \<Rightarrow> string list \<Rightarrow> (string \<Rightarrow> string list \<Rightarrow> 'r option) \<Rightarrow> 'r option" where
  "backtrack (Lit l) s caps k =
     (case strip_prefix l s of None \<Rightarrow> None | Some rest \<Rightarrow> k rest caps)"
| "backtrack (NotChar c) s caps k =
     (case s of [] \<Rightarrow> None | x # rest \<Rightarrow> if x \<noteq> c then k rest caps else None)"
| "backtrack AnyChar s caps k =
     (case s of [] \<Rightarrow> None | x # rest \<Rightarrow> k rest caps)"
| "backtrack (Concat a b) s caps k =
     backtrack a s caps (\<lambda>rest caps'. backtrack b rest caps' k)"
| "backtrack (Plus a) s caps k =
     backtrack a s caps
       (\<lambda>rest caps'.
          case (if length rest < length s then backtrack (Plus a) rest caps' k else None) of
            Some r \<Rightarrow> Some r
          | None \<Rightarrow> k rest caps')"
| "backtrack (StarLazy a) s caps k =
     (case k s caps of
        Some r \<Rightarrow> Some r
      | None \<Rightarrow>
          backtrack a s caps
            (\<lambda>rest caps'. if length rest < length s then backtrack (StarLazy a) rest caps' k else None))"
| "backtrack (Group a) s caps k =
     backtrack a s caps (\<lambda>rest caps'. k rest (caps' @ [take (length s - length rest) s]))"
  by pat_completeness auto
termination
  by (relation "inv_image (measure size <*lex*> measure length) (\<lambda>(r, s, caps, k). (r, s))") auto

text \<open>
  \<^verbatim>\<open>(?s)#bed:begin ([^\n]+)\n(.*?)\n#bed:end\<close>.
\<close>

definition matchTextRegex :: regex where
  "matchTextRegex =
     Concat (Lit ''#bed:begin '')
       (Concat (Group (Plus (NotChar nl)))
          (Concat (Lit ''\<newline>'')
             (Concat (Group (StarLazy AnyChar))
                (Lit ''\<newline>#bed:end''))))"

text \<open>
  The pattern at the start of a text, by the search: the two groups and the text after the
  match.
\<close>

definition backtrack_at :: "string \<Rightarrow> (string \<times> string \<times> string) option" where
  "backtrack_at s =
     backtrack matchTextRegex s []
       (\<lambda>rest caps. case caps of [hdr, body] \<Rightarrow> Some (hdr, body, rest) | _ \<Rightarrow> None)"

declare backtrack.simps [simp del]

subsection \<open>The header: \<^verbatim>\<open>encoding/json\<close> on \<^verbatim>\<open>matchJSON\<close>\<close>

text \<open>
  \<^verbatim>\<open>type matchJSON struct { Path string `json:"path"`; Pos int `json:"pos"`; Len int `json:"len"` }\<close>
\<close>

record matchJSON =
  json_path :: string
  json_pos :: int
  json_len :: int

text \<open>
  The package \<^verbatim>\<open>encoding/json\<close> belongs to Go's library. What follows models
  \<^verbatim>\<open>json.Marshal\<close> and \<^verbatim>\<open>json.Unmarshal\<close> at the type \<^verbatim>\<open>matchJSON\<close> as the library
  documents them. The error that \<^verbatim>\<open>json.Unmarshal\<close> returns is a syntax error or a type error;
  the program passes either on unchanged, and both are \<open>JSONError\<close> here.
\<close>

subsubsection \<open>UTF-8\<close>

definition byte :: "char \<Rightarrow> int" where
  "byte c = of_char c"

definition is_cont :: "char \<Rightarrow> bool" where
  "is_cont c \<longleftrightarrow> 0x80 \<le> byte c \<and> byte c \<le> 0xBF"

text \<open>
  \<open>accept lo hi n s\<close>: \<open>s\<close> starts with a byte in \<open>[lo, hi]\<close> and \<open>n\<close> continuation bytes.
\<close>

definition accept :: "int \<Rightarrow> int \<Rightarrow> nat \<Rightarrow> string \<Rightarrow> bool" where
  "accept lo hi n s =
     (case s of
        [] \<Rightarrow> False
      | b # t \<Rightarrow> lo \<le> byte b \<and> byte b \<le> hi \<and> n \<le> length t \<and> list_all is_cont (take n t))"

text \<open>
  The size that \<^verbatim>\<open>utf8.DecodeRune\<close> reports for a well-formed encoding at the start of the
  text, and 0 where it reports \<^verbatim>\<open>(RuneError, 1)\<close> for an ill-formed one (or \<open>(RuneError, 0)\<close>
  for the empty text).
\<close>

definition utf8_size :: "string \<Rightarrow> nat" where
  "utf8_size s =
     (case s of
        [] \<Rightarrow> 0
      | a # t \<Rightarrow>
          (let x = byte a
           in if x < 0x80 then 1
              else if 0xC2 \<le> x \<and> x \<le> 0xDF then (if accept 0x80 0xBF 0 t then 2 else 0)
              else if x = 0xE0 then (if accept 0xA0 0xBF 1 t then 3 else 0)
              else if x = 0xED then (if accept 0x80 0x9F 1 t then 3 else 0)
              else if 0xE1 \<le> x \<and> x \<le> 0xEF then (if accept 0x80 0xBF 1 t then 3 else 0)
              else if x = 0xF0 then (if accept 0x90 0xBF 2 t then 4 else 0)
              else if 0xF1 \<le> x \<and> x \<le> 0xF3 then (if accept 0x80 0xBF 2 t then 4 else 0)
              else if x = 0xF4 then (if accept 0x80 0x8F 2 t then 4 else 0)
              else 0))"

text \<open>
  A text that is well-formed UTF-8 throughout.
\<close>

function utf8_valid :: "string \<Rightarrow> bool" where
  "utf8_valid [] = True"
| "utf8_valid (c # s) =
     (utf8_size (c # s) \<noteq> 0 \<and> utf8_valid (drop (utf8_size (c # s) - 1) s))"
  by pat_completeness auto
termination
  by (relation "measure length") auto

text \<open>
  \<^verbatim>\<open>utf8.EncodeRune\<close>; a surrogate or a value above U+10FFFF is written as U+FFFD.
\<close>

definition replacement :: string where
  "replacement = [CHR 0xEF, CHR 0xBF, CHR 0xBD]"

definition utf8_encode :: "int \<Rightarrow> string" where
  "utf8_encode r =
     (if r < 0x80 then [char_of r]
      else if r < 0x800 then [char_of (0xC0 + r div 64), char_of (0x80 + r mod 64)]
      else if (0xD800 \<le> r \<and> r < 0xE000) \<or> 0x10FFFF < r then replacement
      else if r < 0x10000 then
        [char_of (0xE0 + r div 4096), char_of (0x80 + r div 64 mod 64), char_of (0x80 + r mod 64)]
      else
        [char_of (0xF0 + r div 262144), char_of (0x80 + r div 4096 mod 64),
         char_of (0x80 + r div 64 mod 64), char_of (0x80 + r mod 64)])"

subsubsection \<open>json.Marshal\<close>

definition hex_digit :: "int \<Rightarrow> char" where
  "hex_digit d = ''0123456789abcdef'' ! nat d"

text \<open>
  One byte below \<^verbatim>\<open>utf8.RuneSelf\<close> in a JSON string, with HTML escaping on as
  \<^verbatim>\<open>json.Marshal\<close> has it: the bytes from the space on are written as they are, except the
  double quote and the backslash, which get a backslash, and \<^verbatim>\<open><\<close>, \<^verbatim>\<open>>\<close>, \<^verbatim>\<open>&\<close> and the
  control characters, which are written \<^verbatim>\<open>\u00XX\<close> or by their short form. (Before Go 1.22
  the backspace and the form feed were written \<^verbatim>\<open>\u0008\<close> and \<^verbatim>\<open>\u000c\<close>, which decode to
  the same bytes.)
\<close>

definition escape_ascii :: "char \<Rightarrow> string" where
  "escape_ascii c =
     (if c = dquote \<or> c = bslash then [bslash, c]
      else if c = CHR 0x08 then [bslash, CHR ''b'']
      else if c = CHR 0x0C then [bslash, CHR ''f'']
      else if c = CHR 0x0A then [bslash, CHR ''n'']
      else if c = CHR 0x0D then [bslash, CHR ''r'']
      else if c = CHR 0x09 then [bslash, CHR ''t'']
      else if byte c < 0x20 \<or> c = CHR ''<'' \<or> c = CHR ''>'' \<or> c = CHR ''&'' then
        [bslash, CHR ''u'', CHR ''0'', CHR ''0'', hex_digit (byte c div 16), hex_digit (byte c mod 16)]
      else [c])"

text \<open>
  The body of a JSON string for a Go string: an ill-formed byte becomes the escape of U+FFFD, the
  line and paragraph separators U+2028 and U+2029 are escaped, every other well-formed
  encoding is copied.
\<close>

function json_escape :: "string \<Rightarrow> string" where
  "json_escape [] = []"
| "json_escape (c # s) =
     (if byte c < 0x80 then escape_ascii c @ json_escape s
      else if utf8_size (c # s) = 0 then bslash # ''ufffd'' @ json_escape s
      else if take 3 (c # s) = [CHR 0xE2, CHR 0x80, CHR 0xA8] then
        bslash # ''u2028'' @ json_escape (drop 2 s)
      else if take 3 (c # s) = [CHR 0xE2, CHR 0x80, CHR 0xA9] then
        bslash # ''u2029'' @ json_escape (drop 2 s)
      else take (utf8_size (c # s)) (c # s) @ json_escape (drop (utf8_size (c # s) - 1) s))"
  by pat_completeness auto
termination
  by (relation "measure length") auto

text \<open>
  \<^verbatim>\<open>strconv.AppendInt(b, v, 10)\<close>.
\<close>

function show_nat :: "int \<Rightarrow> string" where
  "show_nat n =
     (if n < 10 then [char_of (48 + n)]
      else show_nat (n div 10) @ [char_of (48 + n mod 10)])"
  by pat_completeness auto
termination
  by (relation "measure nat") auto

declare show_nat.simps [simp del]

definition itoa :: "int \<Rightarrow> string" where
  "itoa i = (if i < 0 then CHR ''-'' # show_nat (- i) else show_nat i)"

definition json_Marshal :: "matchJSON \<Rightarrow> string" where
  \<open>json_Marshal h =
     ''{"path":"'' @ json_escape (json_path h) @ ''","pos":'' @ itoa (json_pos h) @
     '',"len":'' @ itoa (json_len h) @ ''}''\<close>

subsubsection \<open>json.Unmarshal\<close>

definition is_ws :: "char \<Rightarrow> bool" where
  "is_ws c \<longleftrightarrow> c = CHR '' '' \<or> c = CHR 0x09 \<or> c = CHR 0x0D \<or> c = CHR 0x0A"

definition skip_ws :: "string \<Rightarrow> string" where
  "skip_ws s = dropWhile is_ws s"

definition is_digit :: "char \<Rightarrow> bool" where
  "is_digit c \<longleftrightarrow> 48 \<le> byte c \<and> byte c \<le> 57"

definition hex_val :: "char \<Rightarrow> int option" where
  "hex_val c =
     (let x = byte c
      in if 48 \<le> x \<and> x \<le> 57 then Some (x - 48)
         else if 97 \<le> x \<and> x \<le> 102 then Some (x - 87)
         else if 65 \<le> x \<and> x \<le> 70 then Some (x - 55)
         else None)"

text \<open>
  \<^verbatim>\<open>getu4\<close>: the value of \<^verbatim>\<open>\uXXXX\<close> at the start of the text.
\<close>

definition getu4 :: "string \<Rightarrow> int option" where
  "getu4 s =
     (case s of
        b # u # x1 # x2 # x3 # x4 # _ \<Rightarrow>
          if b = bslash \<and> u = CHR ''u'' then
            (case (hex_val x1, hex_val x2, hex_val x3, hex_val x4) of
               (Some a1, Some a2, Some a3, Some a4) \<Rightarrow> Some (((a1 * 16 + a2) * 16 + a3) * 16 + a4)
             | _ \<Rightarrow> None)
          else None
      | _ \<Rightarrow> None)"

definition is_surrogate :: "int \<Rightarrow> bool" where
  "is_surrogate r \<longleftrightarrow> 0xD800 \<le> r \<and> r < 0xE000"

text \<open>
  \<^verbatim>\<open>utf16.DecodeRune\<close>: the code point of a surrogate pair, U+FFFD for anything else.
\<close>

definition decode_pair :: "int \<Rightarrow> int option \<Rightarrow> int" where
  "decode_pair r1 r2 =
     (case r2 of
        None \<Rightarrow> 0xFFFD
      | Some r2 \<Rightarrow>
          if 0xD800 \<le> r1 \<and> r1 < 0xDC00 \<and> 0xDC00 \<le> r2 \<and> r2 < 0xE000
          then (r1 - 0xD800) * 1024 + (r2 - 0xDC00) + 0x10000
          else 0xFFFD)"

definition unescape :: "char \<Rightarrow> char option" where
  "unescape e =
     (if e = dquote \<or> e = bslash \<or> e = CHR ''/'' then Some e
      else if e = CHR ''b'' then Some (CHR 0x08)
      else if e = CHR ''f'' then Some (CHR 0x0C)
      else if e = CHR ''n'' then Some (CHR 0x0A)
      else if e = CHR ''r'' then Some (CHR 0x0D)
      else if e = CHR ''t'' then Some (CHR 0x09)
      else None)"

definition emit :: "string \<Rightarrow> (string \<times> string) option \<Rightarrow> (string \<times> string) option" where
  "emit out r = (case r of None \<Rightarrow> None | Some (decoded, rest) \<Rightarrow> Some (out @ decoded, rest))"

text \<open>
  A JSON string from the byte after its opening quote on: the decoded bytes and the text
  after the closing quote. As the scanner and \<^verbatim>\<open>unquote\<close> of the library have it: a control
  character and an unknown escape are errors, a lone surrogate escape decodes to U+FFFD, and
  a byte that is not well-formed UTF-8 is coerced to U+FFFD.
\<close>

function unquote :: "string \<Rightarrow> (string \<times> string) option" where
  "unquote [] = None"
| "unquote (c # s) =
     (if c = dquote then Some ([], s)
      else if c = bslash then
        (case s of
           [] \<Rightarrow> None
         | e # _ \<Rightarrow>
             if e = CHR ''u'' then
               (case getu4 (c # s) of
                  None \<Rightarrow> None
                | Some rr \<Rightarrow>
                    if is_surrogate rr then
                      (if decode_pair rr (getu4 (drop 5 s)) \<noteq> 0xFFFD
                       then emit (utf8_encode (decode_pair rr (getu4 (drop 5 s)))) (unquote (drop 11 s))
                       else emit replacement (unquote (drop 5 s)))
                    else emit (utf8_encode rr) (unquote (drop 5 s)))
             else
               (case unescape e of
                  None \<Rightarrow> None
                | Some ch \<Rightarrow> emit [ch] (unquote (drop 1 s))))
      else if byte c < 0x20 then None
      else if byte c < 0x80 then emit [c] (unquote s)
      else if utf8_size (c # s) = 0 then emit replacement (unquote s)
      else emit (take (utf8_size (c # s)) (c # s)) (unquote (drop (utf8_size (c # s) - 1) s)))"
  by pat_completeness auto
termination
  by (relation "measure length") auto

text \<open>
  A JSON number at the start of the text, by the grammar of the scanner: an optional minus,
  \<^verbatim>\<open>0\<close> or a digit from 1 to 9 followed by digits, an optional fraction, an optional exponent.
  The result holds what \<^verbatim>\<open>strconv.ParseInt\<close> makes of the literal: its value when it is
  an integer literal, nothing when it has a fraction or an exponent.
\<close>

definition digits_val :: "string \<Rightarrow> int" where
  "digits_val ds = foldl (\<lambda>n c. 10 * n + (byte c - 48)) 0 ds"

definition lex_frac :: "string \<Rightarrow> (bool \<times> string) option" where
  "lex_frac s =
     (case s of
        [] \<Rightarrow> Some (False, s)
      | c # t \<Rightarrow>
          if c = CHR ''.'' then
            (if takeWhile is_digit t = [] then None else Some (True, dropWhile is_digit t))
          else Some (False, s))"

definition lex_exp :: "string \<Rightarrow> (bool \<times> string) option" where
  "lex_exp s =
     (case s of
        [] \<Rightarrow> Some (False, s)
      | c # t \<Rightarrow>
          if c = CHR ''e'' \<or> c = CHR ''E'' then
            (let t' = (case t of
                         [] \<Rightarrow> t
                       | sign # u \<Rightarrow> if sign = CHR ''+'' \<or> sign = CHR ''-'' then u else t)
             in if takeWhile is_digit t' = [] then None else Some (True, dropWhile is_digit t'))
          else Some (False, s))"

definition lex_tail :: "int \<Rightarrow> string \<Rightarrow> (int option \<times> string) option" where
  "lex_tail v s =
     (case lex_frac s of
        None \<Rightarrow> None
      | Some (has_frac, s1) \<Rightarrow>
          (case lex_exp s1 of
             None \<Rightarrow> None
           | Some (has_exp, s2) \<Rightarrow> Some (if has_frac \<or> has_exp then None else Some v, s2)))"

definition lex_unsigned :: "bool \<Rightarrow> string \<Rightarrow> (int option \<times> string) option" where
  "lex_unsigned neg s =
     (case s of
        [] \<Rightarrow> None
      | d # t \<Rightarrow>
          if d = CHR ''0'' then lex_tail 0 t
          else if is_digit d then
            lex_tail ((if neg then - 1 else 1) * digits_val (d # takeWhile is_digit t))
              (dropWhile is_digit t)
          else None)"

definition lex_number :: "string \<Rightarrow> (int option \<times> string) option" where
  "lex_number s =
     (case s of
        [] \<Rightarrow> None
      | c # t \<Rightarrow> if c = CHR ''-'' then lex_unsigned True t else lex_unsigned False s)"

datatype jvalue =
    JString string
  | JNumber "int option"
  | JBool
  | JNull
  | JNested

text \<open>
  One JSON value at the start of the text, and the text after it. Arrays and objects inside
  the header object are checked for their syntax only. The first argument bounds the number
  of nested calls; the length of the text is enough.
\<close>

fun parse_value :: "nat \<Rightarrow> string \<Rightarrow> (jvalue \<times> string) option"
  and skip_elems :: "nat \<Rightarrow> string \<Rightarrow> string option"
  and skip_members :: "nat \<Rightarrow> string \<Rightarrow> string option" where
  "parse_value 0 s = None"
| "parse_value (Suc n) s =
     (case s of
        [] \<Rightarrow> None
      | c # t \<Rightarrow>
          if c = dquote then
            (case unquote t of None \<Rightarrow> None | Some (str, rest) \<Rightarrow> Some (JString str, rest))
          else if c = CHR ''-'' \<or> is_digit c then
            (case lex_number s of None \<Rightarrow> None | Some (v, rest) \<Rightarrow> Some (JNumber v, rest))
          else if take 4 s = ''true'' then Some (JBool, drop 4 s)
          else if take 5 s = ''false'' then Some (JBool, drop 5 s)
          else if take 4 s = ''null'' then Some (JNull, drop 4 s)
          else if c = CHR ''['' then
            (case skip_ws t of
               [] \<Rightarrow> None
             | c' # t' \<Rightarrow>
                 if c' = CHR '']'' then Some (JNested, t')
                 else (case skip_elems n (c' # t') of
                         None \<Rightarrow> None
                       | Some rest \<Rightarrow> Some (JNested, rest)))
          else if c = CHR ''{'' then
            (case skip_ws t of
               [] \<Rightarrow> None
             | c' # t' \<Rightarrow>
                 if c' = CHR ''}'' then Some (JNested, t')
                 else (case skip_members n (c' # t') of
                         None \<Rightarrow> None
                       | Some rest \<Rightarrow> Some (JNested, rest)))
          else None)"
| "skip_elems 0 s = None"
| "skip_elems (Suc n) s =
     (case parse_value n s of
        None \<Rightarrow> None
      | Some (v, rest) \<Rightarrow>
          (case skip_ws rest of
             [] \<Rightarrow> None
           | c # t \<Rightarrow>
               if c = CHR '','' then skip_elems n (skip_ws t)
               else if c = CHR '']'' then Some t
               else None))"
| "skip_members 0 s = None"
| "skip_members (Suc n) s =
     (case s of
        [] \<Rightarrow> None
      | q # t \<Rightarrow>
          if q \<noteq> dquote then None
          else (case unquote t of
                  None \<Rightarrow> None
                | Some (key, rest) \<Rightarrow>
                    (case skip_ws rest of
                       [] \<Rightarrow> None
                     | colon # t1 \<Rightarrow>
                         if colon \<noteq> CHR '':'' then None
                         else (case parse_value n (skip_ws t1) of
                                 None \<Rightarrow> None
                               | Some (v, rest') \<Rightarrow>
                                   (case skip_ws rest' of
                                      [] \<Rightarrow> None
                                    | c # t2 \<Rightarrow>
                                        if c = CHR '','' then skip_members n (skip_ws t2)
                                        else if c = CHR ''}'' then Some t2
                                        else None)))))"

text \<open>
  The name of a key for the match with the field names: Go matches a key to a field when
  the two are equal under Unicode case folding. For the names \<^verbatim>\<open>path\<close>, \<^verbatim>\<open>pos\<close> and \<^verbatim>\<open>len\<close>
  that is the ASCII letters in either case, and the long s (U+017F) for \<^verbatim>\<open>s\<close>.
\<close>

fun fold_name :: "string \<Rightarrow> string" where
  "fold_name [] = []"
| "fold_name [c] = [if 65 \<le> byte c \<and> byte c \<le> 90 then char_of (byte c + 32) else c]"
| "fold_name (c # d # s) =
     (if c = CHR 0xC5 \<and> d = CHR 0xBF then CHR ''s'' # fold_name s
      else (if 65 \<le> byte c \<and> byte c \<le> 90 then char_of (byte c + 32) else c) # fold_name (d # s))"

text \<open>
  One member of the header object stored into the struct: a string for \<^verbatim>\<open>path\<close>, an integer
  literal in the range of \<^verbatim>\<open>int\<close> for \<^verbatim>\<open>pos\<close> and \<^verbatim>\<open>len\<close>; \<^verbatim>\<open>null\<close> leaves a field as it is;
  a value of another kind is a type error; a key that names no field is skipped.
\<close>

definition store_int :: "jvalue \<Rightarrow> int \<Rightarrow> int option" where
  "store_int v old =
     (case v of
        JNumber (Some i) \<Rightarrow> if in_int i then Some i else None
      | JNull \<Rightarrow> Some old
      | _ \<Rightarrow> None)"

definition store :: "matchJSON \<Rightarrow> string \<Rightarrow> jvalue \<Rightarrow> matchJSON option" where
  "store h key v =
     (if fold_name key = ''path'' then
        (case v of
           JString str \<Rightarrow> Some (h\<lparr>json_path := str\<rparr>)
         | JNull \<Rightarrow> Some h
         | _ \<Rightarrow> None)
      else if fold_name key = ''pos'' then
        (case store_int v (json_pos h) of None \<Rightarrow> None | Some i \<Rightarrow> Some (h\<lparr>json_pos := i\<rparr>))
      else if fold_name key = ''len'' then
        (case store_int v (json_len h) of None \<Rightarrow> None | Some i \<Rightarrow> Some (h\<lparr>json_len := i\<rparr>))
      else Some h)"

text \<open>
  The members of the header object, from the opening quote of a key on, stored one after
  the other; after the closing brace only white space may follow.
\<close>

fun decode_members :: "nat \<Rightarrow> matchJSON \<Rightarrow> string \<Rightarrow> error + matchJSON" where
  "decode_members 0 h s = Inl JSONError"
| "decode_members (Suc n) h s =
     (case s of
        [] \<Rightarrow> Inl JSONError
      | q # t \<Rightarrow>
          if q \<noteq> dquote then Inl JSONError
          else (case unquote t of
                  None \<Rightarrow> Inl JSONError
                | Some (key, rest) \<Rightarrow>
                    (case skip_ws rest of
                       [] \<Rightarrow> Inl JSONError
                     | colon # t1 \<Rightarrow>
                         if colon \<noteq> CHR '':'' then Inl JSONError
                         else (case parse_value (Suc (length t1)) (skip_ws t1) of
                                 None \<Rightarrow> Inl JSONError
                               | Some (v, rest') \<Rightarrow>
                                   (case store h key v of
                                      None \<Rightarrow> Inl JSONError
                                    | Some h' \<Rightarrow>
                                        (case skip_ws rest' of
                                           [] \<Rightarrow> Inl JSONError
                                         | c # t2 \<Rightarrow>
                                             if c = CHR '','' then decode_members n h' (skip_ws t2)
                                             else if c = CHR ''}'' \<and> skip_ws t2 = [] then Inr h'
                                             else Inl JSONError))))))"

text \<open>
  \<^verbatim>\<open>json.Unmarshal(data, &hdr)\<close> for a zero \<^verbatim>\<open>hdr\<close>: an object is decoded member by member,
  \<^verbatim>\<open>null\<close> leaves the struct as it is, any other value is a type error.
\<close>

definition json_Unmarshal :: "string \<Rightarrow> error + matchJSON" where
  "json_Unmarshal data =
     (let zero = \<lparr>json_path = [], json_pos = 0, json_len = 0\<rparr>
      in case skip_ws data of
           [] \<Rightarrow> Inl JSONError
         | c # t \<Rightarrow>
             if c = CHR ''{'' then
               (case skip_ws t of
                  [] \<Rightarrow> Inl JSONError
                | c' # t' \<Rightarrow>
                    if c' = CHR ''}'' then (if skip_ws t' = [] then Inr zero else Inl JSONError)
                    else decode_members (length t) zero (c' # t'))
             else if take 4 (c # t) = ''null'' \<and> skip_ws (drop 4 (c # t)) = [] then Inr zero
             else Inl JSONError)"

subsection \<open>MarshalText, UnmarshalText and ParseMatches\<close>

text \<open>
  \<^verbatim>\<open>MarshalText\<close> writes \<^verbatim>\<open>"#bed:begin %s\n"\<close> with the header, the data and a newline, and
  \<^verbatim>\<open>#bed:end\<close> and a newline. (\<^verbatim>\<open>json.Marshal\<close> returns no error on a struct of a string and
  two integers.)
\<close>

definition MarshalText :: "Match \<Rightarrow> string" where
  "MarshalText m =
     begin_tag @ json_Marshal \<lparr>json_path = Path m, json_pos = Pos m, json_len = Len m\<rparr> @ [nl] @
     Data m @ [nl] @
     ''#bed:end'' @ [nl]"

text \<open>
  The content that \<^verbatim>\<open>writeTempMatchFile\<close> writes: every block followed by a newline.
\<close>

definition temp_file_text :: "Match list \<Rightarrow> string" where
  "temp_file_text matches = concat (map (\<lambda>m. MarshalText m @ [nl]) matches)"

definition UnmarshalText :: "string \<Rightarrow> error + Match" where
  "UnmarshalText data =
     (case FindSubmatch data of
        None \<Rightarrow> Inl MissingTags
      | Some (hdr_text, body) \<Rightarrow>
          (case json_Unmarshal hdr_text of
             Inl err \<Rightarrow> Inl err
           | Inr hdr \<Rightarrow>
               Inr \<lparr>Path = json_path hdr, Pos = json_pos hdr, Len = json_len hdr, Data = body\<rparr>))"

text \<open>
  The loop of \<^verbatim>\<open>ParseMatches\<close> over the blocks: the first block that fails to parse fails
  the call, and no record is returned with the error.
\<close>

fun parse_blocks :: "string list \<Rightarrow> error + Match list" where
  "parse_blocks [] = Inr []"
| "parse_blocks (buf # bufs) =
     (case UnmarshalText buf of
        Inl err \<Rightarrow> Inl err
      | Inr m \<Rightarrow>
          (case parse_blocks bufs of
             Inl err \<Rightarrow> Inl err
           | Inr matches \<Rightarrow> Inr (m # matches)))"

definition ParseMatches :: "string \<Rightarrow> error + Match list" where
  "ParseMatches data = parse_blocks (FindAllBlocks data)"

subsection \<open>Conditions on the text of a record\<close>

text \<open>
  \<open>within p s\<close>: the text \<open>p\<close> occurs in the text \<open>s\<close>.
\<close>

fun within :: "string \<Rightarrow> string \<Rightarrow> bool" where
  "within p [] \<longleftrightarrow> p = []"
| "within p (c # s) \<longleftrightarrow> take (length p) (c # s) = p \<or> within p s"

text \<open>
  The text of a match of the block pattern with the given header and body, and the
  condition under which the pattern matches it with these two groups: the header is not
  empty and holds no newline, and the end tag does not occur in the body.
\<close>

definition block :: "string \<Rightarrow> string \<Rightarrow> string" where
  "block hdr body = begin_tag @ hdr @ nl # body @ end_tag"

definition well_formed_block :: "string \<Rightarrow> string \<Rightarrow> bool" where
  "well_formed_block hdr body \<longleftrightarrow> hdr \<noteq> [] \<and> nl \<notin> set hdr \<and> \<not> within end_tag body"

text \<open>
  A text at whose start a number literal ends.
\<close>

definition ends_number :: "string \<Rightarrow> bool" where
  "ends_number r \<longleftrightarrow>
     (case r of
        [] \<Rightarrow> True
      | c # _ \<Rightarrow> \<not> is_digit c \<and> c \<noteq> CHR ''.'' \<and> c \<noteq> CHR ''e'' \<and> c \<noteq> CHR ''E'')"

section \<open>Properties of patch application\<close>

subsection \<open>The loops as list recursion\<close>

lemma wrap_id: "in_int x \<Longrightarrow> wrap x = x"
  by (simp add: wrap_def in_int_def min_int_def max_int_def)

lemma in_int_wrap: "in_int (wrap x)"
  unfolding wrap_def in_int_def min_int_def max_int_def
  using pos_mod_bound [of "2 ^ 64" "x + 2 ^ 63"] pos_mod_sign [of "2 ^ 64" "x + 2 ^ 63"]
  by simp

lemma shift_later_Cons: "shift_later m (Suc j) (x # xs) = x # shift_later m j xs"
proof (induction m j xs arbitrary: x rule: shift_later.induct)
  case (1 m j matches)
  show ?case
  proof (cases "j < length matches")
    case True
    then show ?thesis
      using "1.IH" [OF True]
      by (subst shift_later.simps, subst (2) shift_later.simps) simp
  next
    case False
    then show ?thesis
      by (subst shift_later.simps, subst (2) shift_later.simps) simp
  qed
qed

lemma shift_later_0: "shift_later m 0 xs = map (shift_pos m) xs"
proof (induction xs)
  case Nil
  show ?case by (subst shift_later.simps) simp
next
  case (Cons x xs)
  have "shift_later m 0 (x # xs) = shift_later m (Suc 0) (shift_pos m x # xs)"
    by (subst shift_later.simps) simp
  then show ?case by (simp add: shift_later_Cons Cons)
qed


lemma apply_from_Cons: "apply_from (Suc i) data (x # xs) = apply_from i data xs"
proof (induction i data xs arbitrary: x rule: apply_from.induct)
  case (1 i data matches)
  show ?case
  proof (cases "i < length matches")
    case False
    then show ?thesis
      by (subst apply_from.simps, subst (2) apply_from.simps) simp
  next
    case True
    let ?m = "matches ! i"
    let ?e = "wrap (Pos ?m + Len ?m)"
    show ?thesis
    proof (cases "Pos ?m < 0 \<or> ?e < 0 \<or> int (length data) < ?e \<or> int (length data) < Pos ?m")
      case True
      with \<open>i < length matches\<close> show ?thesis
        by (subst apply_from.simps, subst (2) apply_from.simps) (auto simp: Let_def)
    next
      case False
      with \<open>i < length matches\<close> "1.IH" [OF \<open>i < length matches\<close> refl refl refl, of x] show ?thesis
        by (subst apply_from.simps, subst (2) apply_from.simps) (auto simp: Let_def shift_later_Cons)
    qed
  qed
qed


lemma each_splice_Cons: "each_splice P (Suc i) data (x # xs) = each_splice P i data xs"
proof (induction P i data xs arbitrary: x rule: each_splice.induct)
  case (1 P i data matches)
  show ?case
  proof (cases "i < length matches")
    case False
    then show ?thesis
      by (subst each_splice.simps, subst (2) each_splice.simps) simp
  next
    case True
    show ?thesis
    proof (cases "P data (matches ! i)")
      case False
      with True show ?thesis
        by (subst each_splice.simps, subst (2) each_splice.simps) (simp add: Let_def)
    next
      case P: True
      with True "1.IH" [OF True refl, of x] show ?thesis
        by (subst each_splice.simps, subst (2) each_splice.simps) (simp add: Let_def shift_later_Cons)
    qed
  qed
qed

lemma apply_from_step:
  "apply_from 0 data (m # ms) =
     (if Pos m < 0 \<or> wrap (Pos m + Len m) < 0 \<or> int (length data) < wrap (Pos m + Len m)
      then Inl SliceBounds
      else if int (length data) < Pos m then Inl BeyondLength
      else apply_from 0 (take (nat (Pos m)) data @ Data m @ drop (nat (wrap (Pos m + Len m))) data)
             (map (shift_pos m) ms))"
  by (subst apply_from.simps) (simp add: Let_def apply_from_Cons shift_later_Cons shift_later_0)

lemma apply_from_Nil: "apply_from 0 data [] = Inr data"
  by (subst apply_from.simps) simp

lemma each_splice_step:
  "each_splice P 0 data (m # ms) \<longleftrightarrow>
     P data m \<and>
     each_splice P 0 (take (nat (Pos m)) data @ Data m @ drop (nat (wrap (Pos m + Len m))) data)
       (map (shift_pos m) ms)"
  by (subst each_splice.simps) (simp add: Let_def each_splice_Cons shift_later_Cons shift_later_0)

lemma each_splice_Nil: "each_splice P 0 data []"
  by (subst each_splice.simps) simp

lemma wrap_span:
  assumes "go_slice data" "0 \<le> p" "0 \<le> l" "p + l \<le> int (length data)"
  shows "wrap (p + l) = p + l"
  using assms by (intro wrap_id) (simp add: in_int_def go_slice_def min_int_def max_int_def)

lemma wrap_neg:
  assumes "2 ^ 63 \<le> x" "x < 2 ^ 64"
  shows "wrap x < 0"
proof -
  have "(x + 2 ^ 63) mod 2 ^ 64 = x + 2 ^ 63 - 2 ^ 64"
    using assms by (simp add: mod_pos_geq)
  then show ?thesis using assms by (simp add: wrap_def)
qed

subsection \<open>Records of the Matcher\<close>

lemma FindAllIndexPath_Inr:
  assumes "ReadFile files path = Inr data" and "spans_ok data (re data)"
  shows "FindAllIndexPath re files path = Inr (map (match_of path data) (re data))"
proof -
  have w: "wrap (snd sp - fst sp) = snd sp - fst sp" if "sp \<in> set (re data)" for sp
  proof -
    from that assms(2) have "0 \<le> fst sp" "fst sp \<le> snd sp" "snd sp \<le> int (length data)"
      "int (length data) \<le> max_int"
      by (auto simp: spans_ok_def list_all_iff)
    then show ?thesis
      by (intro wrap_id) (simp add: in_int_def min_int_def)
  qed
  have "map (\<lambda>i. \<lparr>Path = path, Pos = fst (re data ! i),
                   Len = wrap (snd (re data ! i) - fst (re data ! i)),
                   Data = map (\<lambda>(start, end). slice data start end) (re data) ! i\<rparr>)
          [0..<length (re data)]
        = map (match_of path data) (re data)"
    by (rule nth_equalityI) (simp_all add: match_of_def w case_prod_unfold)
  with assms(1) show ?thesis
    by (simp add: FindAllIndexPath_def FindAllIndex_def FindAll_def)
qed

lemma match_of_sel [simp]:
  "Path (match_of path data span) = path"
  "Pos (match_of path data span) = fst span"
  "Len (match_of path data span) = snd span - fst span"
  "Data (match_of path data span) = slice data (fst span) (snd span)"
  by (simp_all add: match_of_def)

lemma slice_splice:
  assumes "0 \<le> s" "s \<le> e" "e \<le> int (length data)"
  shows "take (nat s) data @ slice data s e @ drop (nat e) data = data"
proof -
  have "take (nat s) (take (nat e) data) @ drop (nat s) (take (nat e) data) = take (nat e) data"
    by (rule append_take_drop_id)
  moreover have "take (nat s) (take (nat e) data) = take (nat s) data"
    using assms by (simp add: min_def)
  ultimately have "take (nat s) data @ slice data s e = take (nat e) data"
    by (simp add: slice_def)
  then have "(take (nat s) data @ slice data s e) @ drop (nat e) data = data"
    by simp
  then show ?thesis by simp
qed

lemma length_slice:
  assumes "0 \<le> s" "s \<le> e" "e \<le> int (length data)"
  shows "int (length (slice data s e)) = e - s"
  using assms by (auto simp: slice_def min_def)

lemma apply_from_unedited:
  assumes "spans_ok data spans"
  shows "apply_from 0 data (map (match_of path data) spans) = Inr data"
  using assms
proof (induction spans)
  case Nil
  show ?case by (simp add: apply_from_Nil)
next
  case (Cons sp spans)
  from Cons.prems have g: "int (length data) \<le> max_int"
    and sp: "0 \<le> fst sp" "fst sp \<le> snd sp" "snd sp \<le> int (length data)"
    and rest: "spans_ok data spans"
    by (auto simp: spans_ok_def)
  let ?m = "match_of path data sp"
  have e: "wrap (snd sp) = snd sp"
    using g sp by (simp add: wrap_id in_int_def min_int_def)
  have same: "take (nat (fst sp)) data @ slice data (fst sp) (snd sp) @ drop (nat (snd sp)) data = data"
    by (rule slice_splice [OF sp])
  have delta: "wrap (int (length (Data ?m)) - Len ?m) = 0"
    using length_slice [OF sp] by (simp add: wrap_def)
  have "shift_pos ?m (match_of path data x) = match_of path data x" if "x \<in> set spans" for x
  proof -
    from that rest g have "0 \<le> fst x" "fst x \<le> max_int"
      by (auto simp: spans_ok_def list_all_iff)
    then have "wrap (fst x) = fst x"
      by (intro wrap_id) (simp add: in_int_def min_int_def)
    then show ?thesis
      by (simp add: shift_pos_def delta del: match_of_sel) (simp add: match_of_def)
  qed
  then have tail: "map (shift_pos ?m \<circ> match_of path data) spans = map (match_of path data) spans"
    by simp
  show ?case
    using sp Cons.IH [OF rest]
    by (simp add: apply_from_step e same tail)
qed

subsection \<open>Grouping by path\<close>








subsection \<open>The claims on patch application\<close>

text \<open>
  C1. A file \<open>aaaXbbbXccc\<close> with the records (pos 3, len 1, data \<open>YY\<close>) and (pos 7, len 1,
  data \<open>Z\<close>), applied in that order, is rewritten to \<open>aaaYYbbbZccc\<close>: the second record is
  spliced at offset 8, one byte further than recorded.
\<close>

theorem applyPathMatches_shift_example:
  "applyPathMatches [''f'' \<mapsto> \<lparr>content = ''aaaXbbbXccc'', mode = 420\<rparr>] ''f''
     [\<lparr>Path = ''f'', Pos = 3, Len = 1, Data = ''YY''\<rparr>,
      \<lparr>Path = ''f'', Pos = 7, Len = 1, Data = ''Z''\<rparr>]
   = Inr [''f'' \<mapsto> \<lparr>content = ''aaaYYbbbZccc'', mode = 420\<rparr>]"
  by (simp add: applyPathMatches_def ReadFile_def Stat_def WriteFile_def readable_def
      writable_def apply_from.simps shift_later.simps shift_pos_def wrap_def)

text \<open>
  C10. The claim: when at the moment each record is spliced \<open>0 \<le> pos\<close> and \<open>pos + len\<close> does
  not exceed the length of the current content, every slicing step is in bounds, and the
  precondition is needed since the loop validates nothing. As stated this fails for a
  negative \<open>len\<close> (see the counterexample below). For records whose \<open>len\<close> is a non-negative
  Go \<^verbatim>\<open>int\<close>, and contents that are Go slices, it holds in both directions: the loop returns
  without a panic exactly when the precondition holds at every splice.
\<close>

theorem apply_from_in_bounds_iff:
  assumes "each_splice (\<lambda>d m. go_slice d \<and> in_int (Len m) \<and> 0 \<le> Len m) 0 data matches"
  shows "(\<exists>out. apply_from 0 data matches = Inr out) \<longleftrightarrow>
         each_splice (\<lambda>d m. 0 \<le> Pos m \<and> Pos m + Len m \<le> int (length d)) 0 data matches"
  using assms
proof (induction "length matches" arbitrary: matches data)
  case 0
  then show ?case by (simp add: apply_from_Nil each_splice_Nil)
next
  case (Suc n)
  then obtain m ms where matches: "matches = m # ms" and n: "n = length (map (shift_pos m) ms)"
    by (cases matches) auto
  let ?data' = "take (nat (Pos m)) data @ Data m @ drop (nat (wrap (Pos m + Len m))) data"
  from Suc.prems have g: "go_slice data" and l: "in_int (Len m)" "0 \<le> Len m"
    and rest: "each_splice (\<lambda>d m. go_slice d \<and> in_int (Len m) \<and> 0 \<le> Len m) 0 ?data' (map (shift_pos m) ms)"
    by (simp_all add: each_splice_step matches)
  note IH = Suc.hyps(1) [OF n rest]
  show ?case
  proof (cases "0 \<le> Pos m \<and> Pos m + Len m \<le> int (length data)")
    case True
    then have w: "wrap (Pos m + Len m) = Pos m + Len m"
      using g l by (intro wrap_span) auto
    with True l IH show ?thesis
      by (simp add: apply_from_step each_splice_step matches)
  next
    case False
    have "apply_from 0 data matches = Inl SliceBounds \<or> apply_from 0 data matches = Inl BeyondLength"
    proof (cases "Pos m < 0 \<or> int (length data) < Pos m")
      case True
      then show ?thesis by (auto simp: apply_from_step matches)
    next
      case inb: False
      with False have big: "int (length data) < Pos m + Len m" by simp
      show ?thesis
      proof (cases "Pos m + Len m < 2 ^ 63")
        case True
        with inb l have "wrap (Pos m + Len m) = Pos m + Len m"
          by (intro wrap_id) (simp add: in_int_def min_int_def max_int_def)
        with big show ?thesis by (simp add: apply_from_step matches)
      next
        case False
        with inb g l have "wrap (Pos m + Len m) < 0"
          by (intro wrap_neg) (simp_all add: in_int_def go_slice_def min_int_def max_int_def)
        then show ?thesis by (simp add: apply_from_step matches)
      qed
    qed
    with False show ?thesis
      by (auto simp: each_splice_step matches)
  qed
qed

theorem apply_from_in_bounds_iff_witness:
  "each_splice (\<lambda>d m. go_slice d \<and> in_int (Len m) \<and> 0 \<le> Len m) 0 ''aaaXbbbXccc''
     [\<lparr>Path = ''f'', Pos = 3, Len = 1, Data = ''YY''\<rparr>,
      \<lparr>Path = ''f'', Pos = 7, Len = 1, Data = ''Z''\<rparr>] \<and>
   each_splice (\<lambda>d m. 0 \<le> Pos m \<and> Pos m + Len m \<le> int (length d)) 0 ''aaaXbbbXccc''
     [\<lparr>Path = ''f'', Pos = 3, Len = 1, Data = ''YY''\<rparr>,
      \<lparr>Path = ''f'', Pos = 7, Len = 1, Data = ''Z''\<rparr>] \<and>
   (\<exists>out. apply_from 0 ''aaaXbbbXccc''
     [\<lparr>Path = ''f'', Pos = 3, Len = 1, Data = ''YY''\<rparr>,
      \<lparr>Path = ''f'', Pos = 7, Len = 1, Data = ''Z''\<rparr>] = Inr out)"
proof -
  let ?ms = "[\<lparr>Path = ''f'', Pos = 3, Len = 1, Data = ''YY''\<rparr>,
      \<lparr>Path = ''f'', Pos = 7, Len = 1, Data = ''Z''\<rparr>]"
  have h: "each_splice (\<lambda>d m. go_slice d \<and> in_int (Len m) \<and> 0 \<le> Len m) 0 ''aaaXbbbXccc'' ?ms"
    by (simp add: each_splice_step each_splice_Nil shift_pos_def wrap_def go_slice_def
        in_int_def min_int_def max_int_def)
  have b: "each_splice (\<lambda>d m. 0 \<le> Pos m \<and> Pos m + Len m \<le> int (length d)) 0 ''aaaXbbbXccc'' ?ms"
    by (simp add: each_splice_step each_splice_Nil shift_pos_def wrap_def)
  from apply_from_in_bounds_iff [OF h] b h show ?thesis
    by simp
qed

text \<open>
  The counterexample to C10 as stated: the content \<open>ab\<close> and one record with \<open>pos = 1\<close> and
  \<open>len = -2\<close> satisfy \<open>0 \<le> pos\<close> and \<open>pos + len \<le> 2\<close>, and \<^verbatim>\<open>data[end:]\<close> panics on \<open>end = -1\<close>.
\<close>

theorem apply_from_negative_len_counterexample:
  "each_splice (\<lambda>d m. 0 \<le> Pos m \<and> Pos m + Len m \<le> int (length d)) 0 ''ab''
     [\<lparr>Path = ''f'', Pos = 1, Len = - 2, Data = ''''\<rparr>] \<and>
   apply_from 0 ''ab'' [\<lparr>Path = ''f'', Pos = 1, Len = - 2, Data = ''''\<rparr>] = Inl SliceBounds"
  by (simp add: each_splice_step each_splice_Nil apply_from_step wrap_def)



text \<open>
  C8. A record with \<open>len = 0\<close> is an insertion: the content becomes the bytes before \<open>pos\<close>,
  the data, and the bytes from \<open>pos\<close> on, and the later records at or after \<open>pos\<close> move by
  the length of the data. A record with empty data is a deletion: the content becomes the
  bytes before \<open>pos\<close> and the bytes from \<open>pos + len\<close> on, \<open>len\<close> bytes shorter, and the later
  records at or after \<open>pos\<close> move back by \<open>len\<close>. Both for a span inside the content.
\<close>

theorem insertion_and_deletion:
  assumes "go_slice data" and "go_slice (Data m)"
    and "0 \<le> Pos m" and "0 \<le> Len m" and "Pos m + Len m \<le> int (length data)"
  shows "(Len m = 0 \<longrightarrow>
            apply_from 0 data (m # later) =
            apply_from 0 (take (nat (Pos m)) data @ Data m @ drop (nat (Pos m)) data)
              (map (\<lambda>x. if Pos m \<le> Pos x
                        then x\<lparr>Pos := wrap (Pos x + int (length (Data m)))\<rparr> else x) later)) \<and>
         (Data m = [] \<longrightarrow>
            apply_from 0 data (m # later) =
            apply_from 0 (take (nat (Pos m)) data @ drop (nat (Pos m + Len m)) data)
              (map (\<lambda>x. if Pos m \<le> Pos x
                        then x\<lparr>Pos := wrap (Pos x - Len m)\<rparr> else x) later) \<and>
            int (length (take (nat (Pos m)) data @ drop (nat (Pos m + Len m)) data)) =
            int (length data) - Len m)"
proof -
  have w: "wrap (Pos m + Len m) = Pos m + Len m"
    using assms by (intro wrap_span) auto
  have ins: "wrap (int (length (Data m))) = int (length (Data m))"
    using assms(2) by (intro wrap_id) (simp add: go_slice_def in_int_def min_int_def max_int_def)
  have del: "wrap (- Len m) = - Len m"
    using assms by (intro wrap_id) (simp add: go_slice_def in_int_def min_int_def max_int_def)
  have step: "apply_from 0 data (m # later) =
      apply_from 0 (take (nat (Pos m)) data @ Data m @ drop (nat (Pos m + Len m)) data)
        (map (shift_pos m) later)"
    using assms(3-5) by (simp add: apply_from_step w)
  have insertion: "apply_from 0 data (m # later) =
      apply_from 0 (take (nat (Pos m)) data @ Data m @ drop (nat (Pos m)) data)
        (map (\<lambda>x. if Pos m \<le> Pos x
                  then x\<lparr>Pos := wrap (Pos x + int (length (Data m)))\<rparr> else x) later)"
    if "Len m = 0"
  proof -
    have "shift_pos m = (\<lambda>x. if Pos m \<le> Pos x
              then x\<lparr>Pos := wrap (Pos x + int (length (Data m)))\<rparr> else x)"
      using that ins by (intro ext) (simp add: shift_pos_def)
    with step that show ?thesis by simp
  qed
  have deletion: "apply_from 0 data (m # later) =
      apply_from 0 (take (nat (Pos m)) data @ drop (nat (Pos m + Len m)) data)
        (map (\<lambda>x. if Pos m \<le> Pos x then x\<lparr>Pos := wrap (Pos x - Len m)\<rparr> else x) later)"
    if "Data m = []"
  proof -
    have "shift_pos m = (\<lambda>x. if Pos m \<le> Pos x then x\<lparr>Pos := wrap (Pos x - Len m)\<rparr> else x)"
      using that del by (intro ext) (simp add: shift_pos_def)
    with step that show ?thesis by simp
  qed
  have len: "int (length (take (nat (Pos m)) data @ drop (nat (Pos m + Len m)) data)) =
      int (length data) - Len m"
    using assms(3-5) by (auto simp: min_def)
  from insertion deletion len show ?thesis by blast
qed

theorem insertion_and_deletion_witness:
  "go_slice ''0123456789'' \<and>
   apply_from 0 ''0123456789'' [\<lparr>Path = ''f'', Pos = 5, Len = 0, Data = ''NEW''\<rparr>]
     = Inr ''01234NEW56789'' \<and>
   apply_from 0 ''0123456789'' [\<lparr>Path = ''f'', Pos = 3, Len = 4, Data = ''''\<rparr>]
     = Inr ''012789''"
  using insertion_and_deletion [of "''0123456789''" "\<lparr>Path = ''f'', Pos = 5, Len = 0, Data = ''NEW''\<rparr>" "[]"]
    insertion_and_deletion [of "''0123456789''" "\<lparr>Path = ''f'', Pos = 3, Len = 4, Data = ''''\<rparr>" "[]"]
  by (simp add: go_slice_def max_int_def apply_from_Nil)

text \<open>
  C7. For a pattern whose spans lie inside the content, the Matcher returns one record per
  span, in the order of the spans, with \<open>pos = start\<close>, \<open>len = end - start\<close> and the bytes of the
  content in \<open>[start, end)\<close> as data; a pattern without a match gives the empty sequence
  and no error.
\<close>

theorem FindAllIndexPath_records:
  assumes "ReadFile files path = Inr data" and "spans_ok data (re data)"
  shows "FindAllIndexPath re files path =
           Inr (map (\<lambda>(start, end). \<lparr>Path = path, Pos = start, Len = end - start,
                                     Data = slice data start end\<rparr>) (re data)) \<and>
         (re data = [] \<longrightarrow> FindAllIndexPath re files path = Inr [])"
proof -
  have "match_of path data = (\<lambda>(start, end). \<lparr>Path = path, Pos = start, Len = end - start,
                                     Data = slice data start end\<rparr>)"
    by (rule ext) (simp add: match_of_def case_prod_unfold)
  with FindAllIndexPath_Inr [where re = re, OF assms] show ?thesis
    by simp
qed

theorem FindAllIndexPath_records_witness:
  "ReadFile [''f'' \<mapsto> \<lparr>content = ''aaaXbbbXccc'', mode = 420\<rparr>] ''f'' = Inr ''aaaXbbbXccc'' \<and>
   spans_ok ''aaaXbbbXccc'' [(3, 4), (7, 8)] \<and>
   FindAllIndexPath (\<lambda>data. [(3, 4), (7, 8)])
     [''f'' \<mapsto> \<lparr>content = ''aaaXbbbXccc'', mode = 420\<rparr>] ''f''
     = Inr [\<lparr>Path = ''f'', Pos = 3, Len = 1, Data = ''X''\<rparr>,
            \<lparr>Path = ''f'', Pos = 7, Len = 1, Data = ''X''\<rparr>] \<and>
   FindAllIndexPath (\<lambda>data. []) [''f'' \<mapsto> \<lparr>content = ''aaaXbbbXccc'', mode = 420\<rparr>] ''f''
     = Inr []"
proof -
  let ?files = "[''f'' \<mapsto> \<lparr>content = ''aaaXbbbXccc'', mode = 420\<rparr>]"
  have r: "ReadFile ?files ''f'' = Inr ''aaaXbbbXccc''"
    by (simp add: ReadFile_def readable_def)
  have s: "spans_ok ''aaaXbbbXccc'' [(3, 4), (7, 8)]"
    by (simp add: spans_ok_def max_int_def)
  have s0: "spans_ok ''aaaXbbbXccc'' []"
    by (simp add: spans_ok_def max_int_def)
  from FindAllIndexPath_records [of ?files "''f''" "''aaaXbbbXccc''" "\<lambda>data. [(3, 4), (7, 8)]", OF r s]
    FindAllIndexPath_records [of ?files "''f''" "''aaaXbbbXccc''" "\<lambda>data. []", OF r s0] r s
  show ?thesis
    by (simp add: slice_def)
qed

text \<open>
  C6. The records that the Matcher produces on a file, applied to that file unedited, leave
  the file system as it was: every splice writes the bytes it removes and no offset moves.
  (A file without write permission fails at the write, unchanged as well.)
\<close>

theorem unedited_records_leave_file:
  assumes "files path = Some f" and "readable f"
    and "spans_ok (content f) (re (content f))"
  shows "\<exists>matches. FindAllIndexPath re files path = Inr matches \<and>
           applyPathMatches files path matches =
             (if writable f then Inr files else Inl WriteError)"
proof -
  from assms(1,2) have r: "ReadFile files path = Inr (content f)"
    by (simp add: ReadFile_def)
  have same: "files(path \<mapsto> f\<lparr>content := content f\<rparr>) = files"
    using assms(1) by (simp add: map_upd_triv)
  have "applyPathMatches files path (map (match_of path (content f)) (re (content f))) =
          (if writable f then Inr files else Inl WriteError)"
    using assms(1) r same
    by (simp add: applyPathMatches_def apply_from_unedited [OF assms(3)] Stat_def WriteFile_def)
  with FindAllIndexPath_Inr [where re = re, OF r assms(3)] show ?thesis
    by blast
qed

theorem unedited_records_leave_file_witness:
  "readable \<lparr>content = ''aaaXbbbXccc'', mode = 420\<rparr> \<and>
   spans_ok ''aaaXbbbXccc'' [(3, 4), (7, 8)] \<and>
   (\<exists>matches. FindAllIndexPath (\<lambda>data. [(3, 4), (7, 8)])
                [''f'' \<mapsto> \<lparr>content = ''aaaXbbbXccc'', mode = 420\<rparr>] ''f'' = Inr matches \<and>
              applyPathMatches [''f'' \<mapsto> \<lparr>content = ''aaaXbbbXccc'', mode = 420\<rparr>] ''f'' matches
                = Inr [''f'' \<mapsto> \<lparr>content = ''aaaXbbbXccc'', mode = 420\<rparr>])"
proof -
  let ?f = "\<lparr>content = ''aaaXbbbXccc'', mode = 420\<rparr>"
  have f: "[''f'' \<mapsto> ?f] ''f'' = Some ?f" by simp
  have r: "readable ?f" by (simp add: readable_def)
  have w: "writable ?f" by (simp add: writable_def)
  have s: "spans_ok (content ?f) ((\<lambda>data. [(3, 4), (7, 8)]) (content ?f))"
    by (simp add: spans_ok_def max_int_def)
  from unedited_records_leave_file [of "[''f'' \<mapsto> ?f]" "''f''" ?f "\<lambda>data. [(3, 4), (7, 8)]", OF f r s] r s w
  show ?thesis
    by simp
qed



section \<open>Properties of the text format\<close>

subsection \<open>The block pattern\<close>

lemma end_tag_nth: "0 < k \<Longrightarrow> k < 9 \<Longrightarrow> end_tag ! k \<noteq> nl"
proof -
  assume "0 < k" "k < 9"
  then have "k \<in> {1, 2, 3, 4, 5, 6, 7, 8}" by auto
  then show ?thesis by (auto simp: end_tag_def)
qed

lemma length_end_tag [simp]: "length end_tag = 9"
  by (simp add: end_tag_def)

lemma within_iff: "within p s \<longleftrightarrow> (\<exists>u v. s = u @ p @ v)"
proof (induction s)
  case Nil
  show ?case by auto
next
  case (Cons c s)
  show ?case
  proof
    assume "within p (c # s)"
    then consider "take (length p) (c # s) = p" | "within p s" by auto
    then show "\<exists>u v. c # s = u @ p @ v"
    proof cases
      case 1
      then have "c # s = [] @ p @ drop (length p) (c # s)"
        by (metis append_Nil append_take_drop_id)
      then show ?thesis by blast
    next
      case 2
      with Cons obtain u v where "s = u @ p @ v" by blast
      then have "c # s = (c # u) @ p @ v" by simp
      then show ?thesis by blast
    qed
  next
    assume "\<exists>u v. c # s = u @ p @ v"
    then obtain u v where uv: "c # s = u @ p @ v" by blast
    show "within p (c # s)"
    proof (cases u)
      case Nil
      with uv have "take (length p) (c # s) = p" by simp
      then show ?thesis by simp
    next
      case (Cons a u')
      with uv have "s = u' @ p @ v" by simp
      with Cons.IH show ?thesis by auto
    qed
  qed
qed

lemma strip_prefix_None: "strip_prefix p s = None \<longleftrightarrow> take (length p) s \<noteq> p"
  by (simp add: strip_prefix_def)

lemma no_end_tag_across:
  assumes "body \<noteq> []" and "take 9 body \<noteq> end_tag"
  shows "take 9 (body @ end_tag @ rest) \<noteq> end_tag"
proof (cases "9 \<le> length body")
  case True
  with assms(2) show ?thesis by simp
next
  case False
  let ?k = "length body"
  from False assms(1) have k: "0 < ?k" "?k < 9" by simp_all
  show ?thesis
  proof
    assume eq: "take 9 (body @ end_tag @ rest) = end_tag"
    have "take 9 (body @ end_tag @ rest) ! ?k = (body @ end_tag @ rest) ! ?k"
      by (rule nth_take) (rule k)
    also have "\<dots> = nl"
      by (simp add: nth_append end_tag_def)
    finally show False
      using eq end_tag_nth [OF k] by simp
  qed
qed

lemma lazy_body_first:
  assumes "\<not> within end_tag body"
  shows "lazy_body (body @ end_tag @ rest) = Some (body, rest)"
  using assms
proof (induction body)
  case Nil
  have "lazy_body (end_tag @ rest) = Some ([], rest)"
    by (simp add: end_tag_def strip_prefix_def)
  then show ?case by simp
next
  case (Cons c body)
  from Cons.prems have a: "take 9 (c # body) \<noteq> end_tag" and b: "\<not> within end_tag body"
    by simp_all
  from no_end_tag_across [OF _ a, of rest]
  have "strip_prefix end_tag (c # body @ end_tag @ rest) = None"
    by (simp add: strip_prefix_None)
  with Cons.IH [OF b] show ?case by simp
qed

lemma lazy_body_shortest:
  "lazy_body s = Some (body, rest) \<Longrightarrow> \<not> within end_tag body"
proof (induction s arbitrary: body)
  case Nil
  then show ?case by simp
next
  case (Cons c s)
  show ?case
  proof (cases "strip_prefix end_tag (c # s)")
    case (Some r)
    with Cons.prems have "body = []" by simp
    then show ?thesis by (simp add: end_tag_def)
  next
    case None
    with Cons.prems obtain b where b: "lazy_body s = Some (b, rest)" "body = c # b"
      by (auto split: option.splits)
    from lazy_body_shape [OF b(1)] have s: "s = b @ end_tag @ rest" .
    have "take 9 (c # b) \<noteq> end_tag"
    proof
      assume e: "take 9 (c # b) = end_tag"
      then have "9 \<le> length (c # b)"
        by (metis length_end_tag length_take min.cobounded1 min_def order_refl)
      with e have "take 9 (c # s) = end_tag"
        unfolding s by simp
      with None show False by (simp add: strip_prefix_None)
    qed
    with Cons.IH [OF b(1)] b(2) show ?thesis by simp
  qed
qed

lemma match_at_block:
  assumes "hdr \<noteq> []" and "nl \<notin> set hdr" and "\<not> within end_tag body"
  shows "match_at (begin_tag @ hdr @ nl # body @ end_tag @ rest) = Some (hdr, body, rest)"
proof -
  have p: "strip_prefix begin_tag (begin_tag @ hdr @ nl # body @ end_tag @ rest)
             = Some (hdr @ nl # body @ end_tag @ rest)"
    by (simp add: strip_prefix_Some)
  have "takeWhile (\<lambda>c. c \<noteq> nl) (hdr @ nl # body @ end_tag @ rest)
          = hdr @ takeWhile (\<lambda>c. c \<noteq> nl) (nl # body @ end_tag @ rest)"
    by (rule takeWhile_append2) (use assms(2) in auto)
  then have t: "takeWhile (\<lambda>c. c \<noteq> nl) (hdr @ nl # body @ end_tag @ rest) = hdr"
    by simp
  have "dropWhile (\<lambda>c. c \<noteq> nl) (hdr @ nl # body @ end_tag @ rest)
          = dropWhile (\<lambda>c. c \<noteq> nl) (nl # body @ end_tag @ rest)"
    by (rule dropWhile_append2) (use assms(2) in auto)
  then have d: "dropWhile (\<lambda>c. c \<noteq> nl) (hdr @ nl # body @ end_tag @ rest) = nl # body @ end_tag @ rest"
    by simp
  show ?thesis
    unfolding match_at_def p
    by (simp add: t d assms(1) lazy_body_first [OF assms(3)] del: takeWhile_append2 dropWhile_append2 takeWhile_append dropWhile_append)
qed

lemma match_at_char:
  assumes "c \<noteq> CHR ''#''"
  shows "match_at (c # s) = None"
  using assms by (simp add: match_at_def strip_prefix_def begin_tag_def)

lemma match_at_Some_iff:
  "match_at s = Some (hdr, body, rest) \<longleftrightarrow>
     s = block hdr body @ rest \<and> well_formed_block hdr body"
proof
  assume m: "match_at s = Some (hdr, body, rest)"
  from match_at_shape [OF m] have shape: "s = begin_tag @ hdr @ nl # body @ end_tag @ rest"
    and h: "hdr \<noteq> []" "nl \<notin> set hdr" by simp_all
  from m obtain u where "lazy_body u = Some (body, rest)"
    by (auto simp: match_at_def Let_def split: option.splits if_splits list.splits)
  then have "\<not> within end_tag body" by (rule lazy_body_shortest)
  with shape h show "s = block hdr body @ rest \<and> well_formed_block hdr body"
    by (simp add: block_def well_formed_block_def)
next
  assume "s = block hdr body @ rest \<and> well_formed_block hdr body"
  then show "match_at s = Some (hdr, body, rest)"
    using match_at_block [of hdr body rest]
    by (simp add: block_def well_formed_block_def)
qed

lemma match_at_Nil [simp]: "match_at [] = None"
  by (simp add: match_at_def strip_prefix_def begin_tag_def)

lemma FindSubmatch_match:
  "match_at s = Some (hdr, body, rest) \<Longrightarrow> FindSubmatch s = Some (hdr, body)"
  by (cases s) simp_all

lemma FindAllBlocks_match:
  "match_at s = Some (hdr, body, rest) \<Longrightarrow> FindAllBlocks s = block hdr body # FindAllBlocks rest"
  by (cases s) (simp_all add: block_def)

lemma FindAllBlocks_block:
  assumes "well_formed_block hdr body"
  shows "FindAllBlocks (block hdr body @ rest) = block hdr body # FindAllBlocks rest"
  using assms by (intro FindAllBlocks_match) (simp add: match_at_Some_iff)

lemma FindAllBlocks_skip:
  assumes "c \<noteq> CHR ''#''"
  shows "FindAllBlocks (c # s) = FindAllBlocks s"
  using assms by (simp add: match_at_char)

lemma FindSubmatch_block:
  assumes "well_formed_block hdr body"
  shows "FindSubmatch (block hdr body) = Some (hdr, body)"
  using assms by (intro FindSubmatch_match [where rest = "[]"]) (simp add: match_at_Some_iff)


lemma UnmarshalText_block:
  assumes "well_formed_block hdr body"
  shows "UnmarshalText (block hdr body) =
           (case json_Unmarshal hdr of
              Inl err \<Rightarrow> Inl err
            | Inr h \<Rightarrow> Inr \<lparr>Path = json_path h, Pos = json_pos h, Len = json_len h, Data = body\<rparr>)"
  by (simp add: UnmarshalText_def FindSubmatch_block [OF assms])



lemma ParseMatches_block_gen:
  assumes "well_formed_block hdr body"
  shows "ParseMatches (block hdr body @ rest) =
           (case json_Unmarshal hdr of
              Inl err \<Rightarrow> Inl err
            | Inr h \<Rightarrow>
                (case ParseMatches rest of
                   Inl err \<Rightarrow> Inl err
                 | Inr matches \<Rightarrow>
                     Inr (\<lparr>Path = json_path h, Pos = json_pos h, Len = json_len h, Data = body\<rparr>
                          # matches)))"
  by (simp add: ParseMatches_def FindAllBlocks_block [OF assms] UnmarshalText_block [OF assms]
      split: sum.splits)


subsection \<open>The written-out matcher is the search on the pattern\<close>

lemma backtrack_plus_not:
  assumes "\<And>x r. x \<noteq> c \<Longrightarrow> k (x # r) caps = None"
  shows "backtrack (Plus (NotChar c)) s caps k =
           (if takeWhile (\<lambda>x. x \<noteq> c) s = [] then None
            else k (dropWhile (\<lambda>x. x \<noteq> c) s) caps)"
proof (induction s)
  case Nil
  show ?case by (simp add: backtrack.simps)
next
  case (Cons x r)
  show ?case
  proof (cases "x = c")
    case True
    then show ?thesis by (simp add: backtrack.simps)
  next
    case False
    have step: "backtrack (Plus (NotChar c)) (x # r) caps k =
        (case backtrack (Plus (NotChar c)) r caps k of Some y \<Rightarrow> Some y | None \<Rightarrow> k r caps)"
      using False by (subst backtrack.simps) (simp add: backtrack.simps(2))
    show ?thesis
    proof (cases "takeWhile (\<lambda>x. x \<noteq> c) r = []")
      case True
      then have "dropWhile (\<lambda>x. x \<noteq> c) r = r"
        by (cases r) (auto split: if_splits)
      with True False Cons show ?thesis
        by (simp add: step)
    next
      case nonempty: False
      then obtain y r' where r: "r = y # r'" and y: "y \<noteq> c"
        by (cases r) (auto split: if_splits)
      from assms [OF y] r have "k r caps = None" by simp
      with nonempty False Cons show ?thesis
        by (simp add: step split: option.splits)
    qed
  qed
qed

lemma backtrack_lazy_any:
  "backtrack (StarLazy AnyChar) s caps k =
     (case k s caps of
        Some y \<Rightarrow> Some y
      | None \<Rightarrow> (case s of [] \<Rightarrow> None | x # r \<Rightarrow> backtrack (StarLazy AnyChar) r caps k))"
  by (subst backtrack.simps) (simp add: backtrack.simps(3) split: list.splits option.splits)

lemma backtrack_lazy_body:
  assumes "\<And>body r. K caps body r = Some (F body r)"
  shows "backtrack (StarLazy AnyChar) s caps
     (\<lambda>rest caps'. case strip_prefix end_tag rest of
                      None \<Rightarrow> None
                    | Some r \<Rightarrow> K caps' (take (length (pre @ s) - length rest) (pre @ s)) r)
   = (case lazy_body s of None \<Rightarrow> None | Some (body, r) \<Rightarrow> Some (F (pre @ body) r))"
proof (induction s arbitrary: pre)
  case Nil
  show ?case
    by (subst backtrack_lazy_any) (simp add: strip_prefix_def end_tag_def)
next
  case (Cons x s)
  show ?case
  proof (cases "strip_prefix end_tag (x # s)")
    case (Some r)
    then show ?thesis
      by (subst backtrack_lazy_any) (simp add: assms)
  next
    case None
    from Cons [of "pre @ [x]", unfolded append_assoc append_Cons append_Nil] None show ?thesis
      by (subst backtrack_lazy_any) (simp split: option.splits)
  qed
qed

lemma backtrack_at_eq: "backtrack_at s = match_at s"
proof (cases "strip_prefix begin_tag s")
  case None
  then show ?thesis
    by (simp add: backtrack_at_def matchTextRegex_def backtrack.simps(1,4) match_at_def begin_tag_def)
next
  case (Some t)
  let ?K0 = "\<lambda>rest caps. case caps of [hdr, body] \<Rightarrow> Some (hdr, body, rest) | _ \<Rightarrow> None"
  let ?k2 = "\<lambda>u rest caps'. case strip_prefix end_tag rest of
                 None \<Rightarrow> None
               | Some r \<Rightarrow> ?K0 r (caps' @ [take (length u - length rest) u])"
  let ?k1 = "\<lambda>rest caps'. case strip_prefix [nl] rest of
                 None \<Rightarrow> None
               | Some u \<Rightarrow> backtrack (StarLazy AnyChar) u (caps' @ [take (length t - length rest) t]) (?k2 u)"
  let ?h = "takeWhile (\<lambda>c. c \<noteq> nl) t" and ?d = "dropWhile (\<lambda>c. c \<noteq> nl) t"
  have 1: "backtrack_at s = backtrack (Plus (NotChar nl)) t [] ?k1"
    using Some
    unfolding backtrack_at_def matchTextRegex_def backtrack.simps(1,4,7) begin_tag_def end_tag_def
    by simp
  have fail: "?k1 (x # r) [] = None" if "x \<noteq> nl" for x r
    using that by (simp add: strip_prefix_def)
  have 2: "backtrack (Plus (NotChar nl)) t [] ?k1 = (if ?h = [] then None else ?k1 ?d [])"
    by (rule backtrack_plus_not) (rule fail)
  have hd: "take (length t - length ?d) t = ?h"
  proof -
    have "t = ?h @ ?d" by simp
    then have "length t - length ?d = length ?h"
      by (metis add_diff_cancel_right' length_append)
    then show ?thesis
      by (metis \<open>t = ?h @ ?d\<close> append_eq_conv_conj)
  qed
  have 3: "backtrack (StarLazy AnyChar) u [?h] (?k2 u)
           = (case lazy_body u of None \<Rightarrow> None | Some (body, r) \<Rightarrow> Some (?h, body, r))" for u
    by (rule backtrack_lazy_body [where K = "\<lambda>caps' body r. ?K0 r (caps' @ [body])"
          and F = "\<lambda>body r. (?h, body, r)" and pre = "[]", unfolded append_Nil]) simp
  have m: "match_at s = (if ?h = [] then None
               else (case ?d of [] \<Rightarrow> None
                     | _ # u \<Rightarrow> (case lazy_body u of None \<Rightarrow> None
                                | Some (body, rest) \<Rightarrow> Some (?h, body, rest))))"
    unfolding match_at_def Some Let_def by simp
  have 4: "?k1 ?d [] = (case ?d of [] \<Rightarrow> None
                     | _ # u \<Rightarrow> (case lazy_body u of None \<Rightarrow> None
                                | Some (body, rest) \<Rightarrow> Some (?h, body, rest)))"
  proof (cases ?d)
    case Nil
    show ?thesis
      unfolding Nil by (simp add: strip_prefix_def)
  next
    case (Cons x u)
    have "\<not> (hd ?d \<noteq> nl)"
      using Cons by (intro hd_dropWhile [of "\<lambda>c. c \<noteq> nl" t]) simp
    with Cons have x: "x = nl" by simp
    have sp: "strip_prefix [nl] (nl # u) = Some u"
      by (simp add: strip_prefix_def)
    have "?k1 ?d [] = backtrack (StarLazy AnyChar) u [?h] (?k2 u)"
      using hd unfolding Cons x sp by simp
    also note 3 [of u]
    finally show ?thesis
      unfolding Cons x by simp
  qed
  show ?thesis
    unfolding 1 2 m 4 ..
qed

section \<open>Properties of the header codec\<close>

lemma byte_digit: "0 \<le> (d :: int) \<Longrightarrow> d < 10 \<Longrightarrow> byte (char_of (48 + d)) = 48 + d"
  by (simp add: byte_def)

lemma char_of_48: "char_of (48 :: int) = CHR ''0''"
  by code_simp

lemma is_digit_char_of: "0 \<le> (d :: int) \<Longrightarrow> d < 10 \<Longrightarrow> is_digit (char_of (48 + d))"
  by (simp add: is_digit_def byte_digit)

lemma digits_val_snoc: "digits_val (ds @ [c]) = 10 * digits_val ds + (byte c - 48)"
  by (simp add: digits_val_def)

lemma show_nat_props:
  "0 \<le> n \<Longrightarrow>
     show_nat n \<noteq> [] \<and> list_all is_digit (show_nat n) \<and> digits_val (show_nat n) = n \<and>
     (0 < n \<longrightarrow> hd (show_nat n) \<noteq> CHR ''0'')"
proof (induction n rule: show_nat.induct)
  case (1 n)
  show ?case
  proof (cases "n < 10")
    case True
    with "1.prems" have s: "show_nat n = [char_of (48 + n)]"
      by (subst show_nat.simps) simp
    have "0 < n \<Longrightarrow> char_of (48 + n) \<noteq> CHR ''0''"
    proof
      assume "0 < n" "char_of (48 + n) = CHR ''0''"
      then have "byte (char_of (48 + n)) = byte (CHR ''0'')" by simp
      with True "1.prems" \<open>0 < n\<close> show False
        by (simp add: byte_digit) (simp add: byte_def)
    qed
    with True "1.prems" show ?thesis
      by (simp add: s is_digit_char_of digits_val_def byte_digit)
  next
    case False
    then have s: "show_nat n = show_nat (n div 10) @ [char_of (48 + n mod 10)]"
      by (subst show_nat.simps) simp
    from False have d: "0 \<le> n div 10" "0 < n div 10" by simp_all
    from "1.IH" [OF False d(1)] d(2)
    have ne: "show_nat (n div 10) \<noteq> []" and dg: "list_all is_digit (show_nat (n div 10))"
      and v: "digits_val (show_nat (n div 10)) = n div 10"
      and h: "hd (show_nat (n div 10)) \<noteq> CHR ''0''"
      by simp_all
    have m: "0 \<le> n mod 10" "n mod 10 < 10" by simp_all
    show ?thesis
      using ne dg v h m
      by (simp add: s digits_val_snoc is_digit_char_of byte_digit)
  qed
qed

lemma takeWhile_digits:
  assumes "list_all is_digit ds" and "ends_number r"
  shows "takeWhile is_digit (ds @ r) = ds" and "dropWhile is_digit (ds @ r) = r"
proof -
  have t: "takeWhile is_digit r = []" and d: "dropWhile is_digit r = r"
    using assms(2) by (cases r; simp add: ends_number_def)+
  have "takeWhile is_digit (ds @ r) = ds @ takeWhile is_digit r"
    by (rule takeWhile_append2) (use assms(1) in \<open>simp add: list_all_iff\<close>)
  with t show "takeWhile is_digit (ds @ r) = ds" by simp
  have "dropWhile is_digit (ds @ r) = dropWhile is_digit r"
    by (rule dropWhile_append2) (use assms(1) in \<open>simp add: list_all_iff\<close>)
  with d show "dropWhile is_digit (ds @ r) = r" by simp
qed

lemma lex_tail_end: "ends_number r \<Longrightarrow> lex_tail v r = Some (Some v, r)"
  by (cases r) (simp_all add: lex_tail_def lex_frac_def lex_exp_def ends_number_def)

lemma lex_unsigned_show_nat:
  assumes "0 \<le> n" and "ends_number r"
  shows "lex_unsigned neg (show_nat n @ r) = Some (Some ((if neg then - 1 else 1) * n), r)"
proof -
  from show_nat_props [OF assms(1)] obtain d ds where
    s: "show_nat n = d # ds" and dg: "is_digit d" "list_all is_digit ds"
    and v: "digits_val (d # ds) = n" and h: "0 < n \<longrightarrow> d \<noteq> CHR ''0''"
    by (cases "show_nat n") auto
  show ?thesis
  proof (cases "d = CHR ''0''")
    case True
    with h assms(1) have n: "n = 0" by auto
    then have "show_nat n = ''0''"
      by (subst show_nat.simps) (simp add: char_of_48)
    with s True have "ds = []" by simp
    with True n s assms(2) show ?thesis
      by (simp add: lex_unsigned_def lex_tail_end)
  next
    case False
    with s dg v assms(2) show ?thesis
      by (simp add: lex_unsigned_def takeWhile_digits lex_tail_end)
  qed
qed

lemma show_nat_hd_not_minus: "0 \<le> n \<Longrightarrow> hd (show_nat n @ r) \<noteq> CHR ''-''"
proof -
  assume "0 \<le> n"
  from show_nat_props [OF this] obtain d ds where
    s: "show_nat n = d # ds" and dg: "is_digit d"
    by (cases "show_nat n") auto
  from dg have "d \<noteq> CHR ''-''" by (auto simp: is_digit_def byte_def)
  with s show ?thesis by simp
qed

lemma lex_number_itoa:
  assumes "ends_number r"
  shows "lex_number (itoa i @ r) = Some (Some i, r)"
proof (cases "i < 0")
  case True
  then have "lex_number (itoa i @ r) = lex_unsigned True (show_nat (- i) @ r)"
    by (simp add: itoa_def lex_number_def)
  with True lex_unsigned_show_nat [of "- i" r True] assms show ?thesis
    by simp
next
  case False
  then have n: "0 \<le> i" by simp
  from show_nat_props [OF n] obtain d ds where s: "show_nat i = d # ds"
    by (cases "show_nat i") auto
  with show_nat_hd_not_minus [OF n, of r] have "d \<noteq> CHR ''-''" by simp
  with False s have "lex_number (itoa i @ r) = lex_unsigned False (show_nat i @ r)"
    by (simp add: itoa_def lex_number_def)
  with lex_unsigned_show_nat [OF n assms, of False] show ?thesis
    by simp
qed

lemma itoa_first:
  "\<exists>c cs. itoa i = c # cs \<and> (c = CHR ''-'' \<or> is_digit c)"
proof (cases "i < 0")
  case True
  then show ?thesis by (simp add: itoa_def)
next
  case False
  then have n: "0 \<le> i" by simp
  from show_nat_props [OF n] obtain d ds where "show_nat i = d # ds" "is_digit d"
    by (cases "show_nat i") auto
  with False show ?thesis by (simp add: itoa_def)
qed

lemma itoa_chars: "c \<in> set (itoa i) \<Longrightarrow> c = CHR ''-'' \<or> is_digit c"
proof (cases "i < 0")
  case True
  assume "c \<in> set (itoa i)"
  with True show ?thesis
    using show_nat_props [of "- i"] by (auto simp: itoa_def list_all_iff)
next
  case False
  assume "c \<in> set (itoa i)"
  with False show ?thesis
    using show_nat_props [of i] by (auto simp: itoa_def list_all_iff)
qed

lemma hex_val_hex_digit:
  assumes "0 \<le> (d :: int)" and "d < 16"
  shows "hex_val (hex_digit d) = Some d"
proof -
  from assms have "d \<in> {0, 1, 2, 3, 4, 5, 6, 7, 8, 9, 10, 11, 12, 13, 14, 15}" by (simp; arith)
  then show ?thesis
    by (auto simp: hex_val_def hex_digit_def byte_def)
qed

lemma hex_val_0: "hex_val (CHR ''0'') = Some 0"
  by (simp add: hex_val_def byte_def)

lemma byte_nat: "byte c = int (of_char c)"
  by (simp add: byte_def of_nat_of_char)

lemma byte_nonneg [simp]: "0 \<le> byte c"
  by (simp add: byte_nat)

lemma byte_less [simp]: "byte c < 256"
  by (simp add: byte_nat)

lemma char_of_byte [simp]: "char_of (byte c) = c"
  by (simp add: byte_def)

lemma byte_eq_iff: "byte c = byte d \<longleftrightarrow> c = d"
  by (metis char_of_byte)

lemma unquote_plain:
  assumes "c \<noteq> dquote" and "c \<noteq> bslash" and "0x20 \<le> byte c" and "byte c < 0x80"
  shows "unquote (c # X) = emit [c] (unquote X)"
  using assms by (subst unquote.simps) simp

lemma unquote_short:
  assumes "e \<noteq> CHR ''u''" and "unescape e = Some ch"
  shows "unquote (bslash # e # X) = emit [ch] (unquote X)"
  using assms by (subst unquote.simps) simp

lemma unquote_u:
  assumes "hex_val x1 = Some a1" and "hex_val x2 = Some a2" and "hex_val x3 = Some a3"
    and "hex_val x4 = Some a4" and "\<not> is_surrogate (((a1 * 16 + a2) * 16 + a3) * 16 + a4)"
  shows "unquote (bslash # CHR ''u'' # x1 # x2 # x3 # x4 # X) =
           emit (utf8_encode (((a1 * 16 + a2) * 16 + a3) * 16 + a4)) (unquote X)"
  using assms by (subst unquote.simps) (simp add: getu4_def)

lemma unquote_escape_ascii:
  assumes "byte c < 0x80"
  shows "unquote (escape_ascii c @ X) = emit [c] (unquote X)"
proof -
  consider (q) "c = dquote \<or> c = bslash"
    | (b) "c = CHR 0x08" | (f) "c = CHR 0x0C" | (n) "c = CHR 0x0A" | (r) "c = CHR 0x0D"
    | (t) "c = CHR 0x09"
    | (u) "c \<noteq> dquote" "c \<noteq> bslash" "c \<noteq> CHR 0x08" "c \<noteq> CHR 0x0C" "c \<noteq> CHR 0x0A"
          "c \<noteq> CHR 0x0D" "c \<noteq> CHR 0x09"
          "byte c < 0x20 \<or> c = CHR ''<'' \<or> c = CHR ''>'' \<or> c = CHR ''&''"
    | (p) "c \<noteq> dquote" "c \<noteq> bslash" "c \<noteq> CHR 0x08" "c \<noteq> CHR 0x0C" "c \<noteq> CHR 0x0A"
          "c \<noteq> CHR 0x0D" "c \<noteq> CHR 0x09"
          "\<not> (byte c < 0x20 \<or> c = CHR ''<'' \<or> c = CHR ''>'' \<or> c = CHR ''&'')"
    by blast
  then show ?thesis
  proof cases
    case q
    then show ?thesis
      by (auto simp: escape_ascii_def unquote_short unescape_def)
  next
    case b
    then show ?thesis by (simp add: escape_ascii_def unquote_short unescape_def)
  next
    case f
    then show ?thesis by (simp add: escape_ascii_def unquote_short unescape_def)
  next
    case n
    then show ?thesis by (simp add: escape_ascii_def unquote_short unescape_def)
  next
    case r
    then show ?thesis by (simp add: escape_ascii_def unquote_short unescape_def)
  next
    case t
    then show ?thesis by (simp add: escape_ascii_def unquote_short unescape_def)
  next
    case u
    let ?x = "byte c"
    have e: "escape_ascii c = [bslash, CHR ''u'', CHR ''0'', CHR ''0'', hex_digit (?x div 16), hex_digit (?x mod 16)]"
      using u by (simp add: escape_ascii_def)
    have h1: "hex_val (hex_digit (?x div 16)) = Some (?x div 16)"
      using assms by (intro hex_val_hex_digit) (simp_all add: pos_imp_zdiv_nonneg_iff)
    have h2: "hex_val (hex_digit (?x mod 16)) = Some (?x mod 16)"
      by (intro hex_val_hex_digit) simp_all
    have v: "((0 * 16 + 0) * 16 + ?x div 16) * 16 + ?x mod 16 = ?x"
      by simp
    have ns: "\<not> is_surrogate (((0 * 16 + 0) * 16 + ?x div 16) * 16 + ?x mod 16)"
      unfolding v using assms by (simp add: is_surrogate_def)
    have "unquote (escape_ascii c @ X) = emit (utf8_encode (((0 * 16 + 0) * 16 + ?x div 16) * 16 + ?x mod 16)) (unquote X)"
      unfolding e using unquote_u [OF hex_val_0 hex_val_0 h1 h2 ns, of X] by simp
    also have "utf8_encode (((0 * 16 + 0) * 16 + ?x div 16) * 16 + ?x mod 16) = [c]"
      unfolding v using assms by (simp add: utf8_encode_def)
    finally show ?thesis .
  next
    case p
    then have "escape_ascii c = [c]" by (simp add: escape_ascii_def)
    with p assms unquote_plain [of c X] show ?thesis by simp
  qed
qed

lemma accept_length: "accept lo hi k t \<Longrightarrow> Suc k \<le> length t"
  by (cases t) (simp_all add: accept_def)

lemma accept_append: "accept lo hi k t \<Longrightarrow> accept lo hi k (take (Suc k) t @ Y)"
  by (cases t) (simp_all add: accept_def)

lemma utf8_size_cases:
  assumes "utf8_size (a # t) = n" and "n \<noteq> 0" and "0x80 \<le> byte a"
  obtains lo hi k where "n = k + 2" and "accept lo hi k t" and "0x80 \<le> lo"
    and "\<And>t'. accept lo hi k t' \<Longrightarrow> utf8_size (a # t') = n"
proof -
  let ?x = "byte a"
  consider (c2) "0xC2 \<le> ?x \<and> ?x \<le> 0xDF"
    | (e0) "?x = 0xE0" | (ed) "?x = 0xED"
    | (e1) "0xE1 \<le> ?x \<and> ?x \<le> 0xEF \<and> ?x \<noteq> 0xED"
    | (f0) "?x = 0xF0"
    | (f1) "0xF1 \<le> ?x \<and> ?x \<le> 0xF3"
    | (f4) "?x = 0xF4"
    | (bad) "?x < 0xC2 \<or> 0xF4 < ?x"
    by linarith
  then show ?thesis
  proof cases
    case c2
    with assms have "n = 0 + 2" "accept 0x80 0xBF 0 t"
      by (auto simp: utf8_size_def Let_def split: if_splits)
    moreover have "utf8_size (a # t') = n" if "accept 0x80 0xBF 0 t'" for t'
      using that c2 \<open>n = 0 + 2\<close> by (simp add: utf8_size_def Let_def)
    ultimately show ?thesis using that [of 0 "0x80" "0xBF"] by simp
  next
    case e0
    with assms have "n = 1 + 2" "accept 0xA0 0xBF 1 t"
      by (auto simp: utf8_size_def Let_def split: if_splits)
    moreover have "utf8_size (a # t') = n" if "accept 0xA0 0xBF 1 t'" for t'
      using that e0 \<open>n = 1 + 2\<close> by (simp add: utf8_size_def Let_def)
    ultimately show ?thesis using that [of 1 "0xA0" "0xBF"] by simp
  next
    case ed
    with assms have "n = 1 + 2" "accept 0x80 0x9F 1 t"
      by (auto simp: utf8_size_def Let_def split: if_splits)
    moreover have "utf8_size (a # t') = n" if "accept 0x80 0x9F 1 t'" for t'
      using that ed \<open>n = 1 + 2\<close> by (simp add: utf8_size_def Let_def)
    ultimately show ?thesis using that [of 1 "0x80" "0x9F"] by simp
  next
    case e1
    with assms have "n = 1 + 2" "accept 0x80 0xBF 1 t"
      by (auto simp: utf8_size_def Let_def split: if_splits)
    moreover have "utf8_size (a # t') = n" if "accept 0x80 0xBF 1 t'" for t'
      using that e1 \<open>n = 1 + 2\<close> by (simp add: utf8_size_def Let_def)
    ultimately show ?thesis using that [of 1 "0x80" "0xBF"] by simp
  next
    case f0
    with assms have "n = 2 + 2" "accept 0x90 0xBF 2 t"
      by (auto simp: utf8_size_def Let_def split: if_splits)
    moreover have "utf8_size (a # t') = n" if "accept 0x90 0xBF 2 t'" for t'
      using that f0 \<open>n = 2 + 2\<close> by (simp add: utf8_size_def Let_def)
    ultimately show ?thesis using that [of 2 "0x90" "0xBF"] by simp
  next
    case f1
    with assms have "n = 2 + 2" "accept 0x80 0xBF 2 t"
      by (auto simp: utf8_size_def Let_def split: if_splits)
    moreover have "utf8_size (a # t') = n" if "accept 0x80 0xBF 2 t'" for t'
      using that f1 \<open>n = 2 + 2\<close> by (simp add: utf8_size_def Let_def)
    ultimately show ?thesis using that [of 2 "0x80" "0xBF"] by simp
  next
    case f4
    with assms have "n = 2 + 2" "accept 0x80 0x8F 2 t"
      by (auto simp: utf8_size_def Let_def split: if_splits)
    moreover have "utf8_size (a # t') = n" if "accept 0x80 0x8F 2 t'" for t'
      using that f4 \<open>n = 2 + 2\<close> by (simp add: utf8_size_def Let_def)
    ultimately show ?thesis using that [of 2 "0x80" "0x8F"] by simp
  next
    case bad
    with assms show ?thesis
      by (auto simp: utf8_size_def Let_def split: if_splits)
  qed
qed

lemma utf8_size_append:
  assumes "utf8_size (a # t) = n" and "n \<noteq> 0" and "0x80 \<le> byte a"
  shows "utf8_size (a # take (n - 1) t @ Y) = n \<and> n - 1 \<le> length t"
proof (rule utf8_size_cases [OF assms])
  fix k lo hi
  assume n: "n = k + 2" and a: "accept lo hi k t"
    and r: "\<And>t'. accept lo hi k t' \<Longrightarrow> utf8_size (a # t') = n"
  from accept_append [OF a, of Y] r n have "utf8_size (a # take (n - 1) t @ Y) = n"
    by simp
  moreover from accept_length [OF a] n have "n - 1 \<le> length t" by simp
  ultimately show ?thesis ..
qed

lemma unquote_utf8:
  assumes "utf8_size (c # s) = n" and "n \<noteq> 0" and "0x80 \<le> byte c"
  shows "unquote (c # take (n - 1) s @ Z) = emit (c # take (n - 1) s) (unquote Z)"
proof -
  note u = conjunct1 [OF utf8_size_append [OF assms]] conjunct2 [OF utf8_size_append [OF assms, of "[]"]]
  have ne: "c \<noteq> dquote" "c \<noteq> bslash"
    using assms(3) by (auto simp: byte_def)
  have "unquote (c # take (n - 1) s @ Z)
        = emit (take n (c # take (n - 1) s @ Z)) (unquote (drop (n - 1) (take (n - 1) s @ Z)))"
    using ne assms(2,3) u(1) [of Z]
    by (subst unquote.simps) simp
  also have "take n (c # take (n - 1) s @ Z) = c # take (n - 1) s"
    using assms(2) u(2) by (cases n) (simp_all add: min_def)
  also have "drop (n - 1) (take (n - 1) s @ Z) = Z"
    using u(2) by (simp add: min_def)
  finally show ?thesis .
qed

lemma utf8_encode_LS: "utf8_encode 0x2028 = [CHR 0xE2, CHR 0x80, CHR 0xA8]"
  by code_simp

lemma utf8_encode_PS: "utf8_encode 0x2029 = [CHR 0xE2, CHR 0x80, CHR 0xA9]"
  by code_simp

lemma unquote_LS: "unquote (bslash # ''u2028'' @ Z) = emit [CHR 0xE2, CHR 0x80, CHR 0xA8] (unquote Z)"
proof -
  have h: "hex_val (CHR ''2'') = Some 2" "hex_val (CHR ''0'') = Some 0" "hex_val (CHR ''8'') = Some 8"
    by (simp_all add: hex_val_def byte_def)
  have ns: "\<not> is_surrogate (((2 * 16 + 0) * 16 + 2) * 16 + 8)"
    by (simp add: is_surrogate_def)
  from unquote_u [OF h(1) h(2) h(1) h(3) ns, of Z] show ?thesis
    by (simp add: utf8_encode_LS)
qed

lemma unquote_PS: "unquote (bslash # ''u2029'' @ Z) = emit [CHR 0xE2, CHR 0x80, CHR 0xA9] (unquote Z)"
proof -
  have h: "hex_val (CHR ''2'') = Some 2" "hex_val (CHR ''0'') = Some 0" "hex_val (CHR ''9'') = Some 9"
    by (simp_all add: hex_val_def byte_def)
  have ns: "\<not> is_surrogate (((2 * 16 + 0) * 16 + 2) * 16 + 9)"
    by (simp add: is_surrogate_def)
  from unquote_u [OF h(1) h(2) h(1) h(3) ns, of Z] show ?thesis
    by (simp add: utf8_encode_PS)
qed

lemma utf8_size_E2:
  assumes "take 3 (c # s) = [CHR 0xE2, CHR 0x80, x]" and "x = CHR 0xA8 \<or> x = CHR 0xA9"
  shows "utf8_size (c # s) = 3"
proof -
  from assms(1) obtain s' where "c = CHR 0xE2" "s = CHR 0x80 # x # s'"
    by (cases s; cases "tl s") auto
  with assms(2) show ?thesis
    by (auto simp: utf8_size_def accept_def is_cont_def byte_def)
qed

lemma unquote_json_escape:
  "utf8_valid p \<Longrightarrow> unquote (json_escape p @ dquote # rest) = Some (p, rest)"
proof (induction "length p" arbitrary: p rule: less_induct)
  case less
  show ?case
  proof (cases p)
    case Nil
    then show ?thesis by simp
  next
    case (Cons c s)
    let ?n = "utf8_size (c # s)"
    from less.prems Cons have n0: "?n \<noteq> 0" and v: "utf8_valid (drop (?n - 1) s)"
      by simp_all
    have IH: "unquote (json_escape (drop (?n - 1) s) @ dquote # rest) = Some (drop (?n - 1) s, rest)"
      using v Cons by (intro less.hyps) simp_all
    show ?thesis
    proof (cases "byte c < 0x80")
      case True
      then have "?n = 1" by (simp add: utf8_size_def)
      with IH True show ?thesis
        by (simp add: Cons unquote_escape_ascii emit_def)
    next
      case False
      then have hi: "0x80 \<le> byte c" by simp
      consider (ls) "take 3 (c # s) = [CHR 0xE2, CHR 0x80, CHR 0xA8]"
        | (ps) "take 3 (c # s) = [CHR 0xE2, CHR 0x80, CHR 0xA9]"
        | (other) "take 3 (c # s) \<noteq> [CHR 0xE2, CHR 0x80, CHR 0xA8]"
                  "take 3 (c # s) \<noteq> [CHR 0xE2, CHR 0x80, CHR 0xA9]"
        by blast
      then show ?thesis
      proof cases
        case ls
        have n: "?n = 3" by (rule utf8_size_E2 [OF ls]) (rule disjI1, rule refl)
        have e: "json_escape (c # s) = bslash # ''u2028'' @ json_escape (drop 2 s)"
          using False n0 ls by (subst json_escape.simps) simp
        have "c # s = take 3 (c # s) @ drop 3 (c # s)" by (simp only: append_take_drop_id)
        then have "c # s = [CHR 0xE2, CHR 0x80, CHR 0xA8] @ drop 3 (c # s)"
          by (simp only: ls)
        then have cs: "c # s = [CHR 0xE2, CHR 0x80, CHR 0xA8] @ drop 2 s"
          by simp
        from IH n have "unquote (json_escape (drop 2 s) @ dquote # rest) = Some (drop 2 s, rest)"
          by simp
        then have "unquote (json_escape (c # s) @ dquote # rest)
                   = Some ([CHR 0xE2, CHR 0x80, CHR 0xA8] @ drop 2 s, rest)"
          unfolding e using unquote_LS [of "json_escape (drop 2 s) @ dquote # rest"]
          by (simp add: emit_def)
        with cs Cons show ?thesis by simp
      next
        case ps
        have n: "?n = 3" by (rule utf8_size_E2 [OF ps]) (rule disjI2, rule refl)
        have e: "json_escape (c # s) = bslash # ''u2029'' @ json_escape (drop 2 s)"
          using False n0 ps by (subst json_escape.simps) simp
        have "c # s = take 3 (c # s) @ drop 3 (c # s)" by (simp only: append_take_drop_id)
        then have "c # s = [CHR 0xE2, CHR 0x80, CHR 0xA9] @ drop 3 (c # s)"
          by (simp only: ps)
        then have cs: "c # s = [CHR 0xE2, CHR 0x80, CHR 0xA9] @ drop 2 s"
          by simp
        from IH n have "unquote (json_escape (drop 2 s) @ dquote # rest) = Some (drop 2 s, rest)"
          by simp
        then have "unquote (json_escape (c # s) @ dquote # rest)
                   = Some ([CHR 0xE2, CHR 0x80, CHR 0xA9] @ drop 2 s, rest)"
          unfolding e using unquote_PS [of "json_escape (drop 2 s) @ dquote # rest"]
          by (simp add: emit_def)
        with cs Cons show ?thesis by simp
      next
        case other
        have e: "json_escape (c # s) = (c # take (?n - 1) s) @ json_escape (drop (?n - 1) s)"
          using False n0 other by (subst json_escape.simps) (cases ?n; simp)
        have "unquote (json_escape (c # s) @ dquote # rest)
              = emit (c # take (?n - 1) s) (unquote (json_escape (drop (?n - 1) s) @ dquote # rest))"
          unfolding e using unquote_utf8 [OF refl n0 hi, of "json_escape (drop (?n - 1) s) @ dquote # rest"]
          by simp
        with IH Cons show ?thesis
          by (simp add: emit_def)
      qed
    qed
  qed
qed

lemma skip_ws_id: "\<not> is_ws c \<Longrightarrow> skip_ws (c # s) = c # s"
  by (simp add: skip_ws_def)

lemma skip_ws_Nil [simp]: "skip_ws [] = []"
  by (simp add: skip_ws_def)

lemma parse_value_string:
  assumes "utf8_valid p"
  shows "parse_value (Suc n) (dquote # json_escape p @ dquote # R) = Some (JString p, R)"
  by (simp add: unquote_json_escape [OF assms])

lemma parse_value_int:
  assumes "ends_number R"
  shows "parse_value (Suc n) (itoa i @ R) = Some (JNumber (Some i), R)"
proof -
  from itoa_first [of i] obtain c cs where i: "itoa i = c # cs"
    and c: "c = CHR ''-'' \<or> is_digit c" by blast
  from c have "c \<noteq> dquote" by (auto simp: is_digit_def byte_def)
  with i c lex_number_itoa [OF assms, of i] show ?thesis
    by auto
qed

lemma decode_member:
  assumes "unquote K = Some (key, CHR '':'' # V)"
    and "skip_ws V = V"
    and "parse_value (Suc (length V)) V = Some (v, c # R)"
    and "store h key v = Some h'"
    and "\<not> is_ws c"
  shows "decode_members (Suc n) h (dquote # K) =
           (if c = CHR '','' then decode_members n h' (skip_ws R)
            else if c = CHR ''}'' \<and> skip_ws R = [] then Inr h'
            else Inl JSONError)"
  using assms by (simp add: skip_ws_id is_ws_def del: parse_value.simps)

lemma unquote_key:
  assumes "json_escape key = key" and "utf8_valid key"
  shows "unquote (key @ dquote # R) = Some (key, R)"
  using unquote_json_escape [OF assms(2), of R] assms(1) by simp

lemma key_path: "json_escape ''path'' = ''path''" "utf8_valid ''path''" "fold_name ''path'' = ''path''"
  by code_simp+

lemma key_pos: "json_escape ''pos'' = ''pos''" "utf8_valid ''pos''" "fold_name ''pos'' = ''pos''"
  by code_simp+

lemma key_len: "json_escape ''len'' = ''len''" "utf8_valid ''len''" "fold_name ''len'' = ''len''"
  by code_simp+

lemma json_round_trip:
  assumes "utf8_valid (json_path h)" and "in_int (json_pos h)" and "in_int (json_len h)"
  shows "json_Unmarshal (json_Marshal h) = Inr h"
proof -
  let ?p = "json_path h" and ?a = "json_pos h" and ?b = "json_len h"
  let ?zero = "\<lparr>json_path = [], json_pos = 0, json_len = 0\<rparr>"
  let ?R3 = "''}''"
  let ?V3 = "itoa ?b @ ?R3"
  let ?K3 = "''len'' @ dquote # CHR '':'' # ?V3"
  let ?R2 = "CHR '','' # dquote # ?K3"
  let ?V2 = "itoa ?a @ ?R2"
  let ?K2 = "''pos'' @ dquote # CHR '':'' # ?V2"
  let ?R1 = "CHR '','' # dquote # ?K2"
  let ?V1 = "dquote # json_escape ?p @ dquote # ?R1"
  let ?K1 = "''path'' @ dquote # CHR '':'' # ?V1"
  let ?h1 = "?zero\<lparr>json_path := ?p\<rparr>"
  let ?h2 = "?h1\<lparr>json_pos := ?a\<rparr>"
  let ?h3 = "?h2\<lparr>json_len := ?b\<rparr>"
  have m: "json_Marshal h = CHR ''{'' # dquote # ?K1"
    by (simp add: json_Marshal_def)
  have nd: "skip_ws (itoa i @ R) = itoa i @ R" for i R
  proof -
    from itoa_first [of i] obtain c cs where i: "itoa i = c # cs"
      and c: "c = CHR ''-'' \<or> is_digit c" by blast
    from c have "\<not> is_ws c" by (auto simp: is_ws_def is_digit_def byte_def)
    with i show ?thesis by (simp add: skip_ws_id)
  qed
  have e2: "ends_number ?R2" and e3: "ends_number ?R3"
    by (simp_all add: ends_number_def is_digit_def byte_def)
  have s1: "store ?zero ''path'' (JString ?p) = Some ?h1"
    by (simp add: store_def key_path(3) del: fold_name.simps)
  have s2: "store ?h1 ''pos'' (JNumber (Some ?a)) = Some ?h2"
    using assms(2) by (simp add: store_def store_int_def key_pos(3) del: fold_name.simps)
  have s3: "store ?h2 ''len'' (JNumber (Some ?b)) = Some ?h3"
    using assms(3) by (simp add: store_def store_int_def key_len(3) del: fold_name.simps)
  have d3: "decode_members (Suc n) ?h2 (dquote # ?K3) = Inr ?h3" for n
    using decode_member [OF unquote_key [OF key_len(1,2)] nd parse_value_int [OF e3] s3, where n = n]
    by (simp add: is_ws_def)
  have d2: "decode_members (Suc (Suc n)) ?h1 (dquote # ?K2) = Inr ?h3" for n
    using decode_member [OF unquote_key [OF key_pos(1,2)] nd parse_value_int [OF e2] s2, where n = "Suc n"] d3 [of n]
    by (simp add: is_ws_def skip_ws_id)
  have d1: "decode_members (Suc (Suc (Suc n))) ?zero (dquote # ?K1) = Inr ?h3" for n
    using decode_member [OF unquote_key [OF key_path(1,2)] skip_ws_id parse_value_string [OF assms(1)] s1,
        where n = "Suc (Suc n)"] d2 [of n]
    by (simp add: is_ws_def skip_ws_id)
  obtain k where k: "length (dquote # ?K1) = Suc (Suc (Suc k))"
    by simp
  have "json_Unmarshal (json_Marshal h) = decode_members (length (dquote # ?K1)) ?zero (dquote # ?K1)"
    unfolding m json_Unmarshal_def by (simp add: skip_ws_id is_ws_def)
  also have "\<dots> = Inr ?h3"
    unfolding k by (rule d1)
  also have "?h3 = h" by simp
  finally show ?thesis .
qed

lemma accept_high:
  assumes "accept lo hi k t" and "0x80 \<le> lo" and "b \<in> set (take (Suc k) t)"
  shows "0x80 \<le> byte b"
proof (cases t)
  case Nil
  with assms show ?thesis by simp
next
  case (Cons x t')
  with assms have "b = x \<or> b \<in> set (take k t')" by simp
  with assms(1,2) Cons show ?thesis
    by (auto simp: accept_def list_all_iff is_cont_def)
qed

lemma hex_digit_not_nl: "0 \<le> (d :: int) \<Longrightarrow> d < 16 \<Longrightarrow> hex_digit d \<noteq> nl"
proof -
  assume "0 \<le> d" "d < 16"
  then have "d \<in> {0, 1, 2, 3, 4, 5, 6, 7, 8, 9, 10, 11, 12, 13, 14, 15}" by (simp; arith)
  then show ?thesis by (auto simp: hex_digit_def)
qed

lemma escape_ascii_no_nl: "nl \<notin> set (escape_ascii c)"
proof -
  have "0 \<le> byte c div 16" "byte c div 16 < 16" "0 \<le> byte c mod 16" "byte c mod 16 < 16"
    using byte_less [of c] byte_nonneg [of c] by presburger+
  then have "nl \<noteq> hex_digit (byte c div 16)" "nl \<noteq> hex_digit (byte c mod 16)"
    using hex_digit_not_nl [of "byte c div 16"] hex_digit_not_nl [of "byte c mod 16"] by auto
  then show ?thesis
    by (auto simp: escape_ascii_def)
qed

lemma json_escape_no_nl: "nl \<notin> set (json_escape p)"
proof (induction "length p" arbitrary: p rule: less_induct)
  case less
  show ?case
  proof (cases p)
    case Nil
    then show ?thesis by simp
  next
    case (Cons c s)
    let ?n = "utf8_size (c # s)"
    have IH: "nl \<notin> set (json_escape (drop k s))" for k
      using Cons by (intro less.hyps) simp
    from IH [of 0] have IH0: "nl \<notin> set (json_escape s)" by simp
    show ?thesis
    proof (cases "byte c < 0x80 \<or> ?n = 0")
      case True
      with IH0 show ?thesis
        by (auto simp: Cons escape_ascii_no_nl)
    next
      case False
      then have hi: "0x80 \<le> byte c" and n0: "?n \<noteq> 0" by simp_all
      have "b \<noteq> nl" if "b \<in> set (take (?n - 1) s)" for b
      proof (rule utf8_size_cases [OF refl n0 hi])
        fix k lo hi'
        assume "?n = k + 2" "accept lo hi' k s" "0x80 \<le> lo"
        with that accept_high [of lo hi' k s b] have "0x80 \<le> byte b" by simp
        then show "b \<noteq> nl" by (auto simp: byte_def)
      qed
      moreover have "c \<noteq> nl" using hi by (auto simp: byte_def)
      ultimately have "nl \<notin> set (take ?n (c # s))"
        using n0 by (cases ?n) auto
      with False IH [of 2] IH [of "?n - 1"] show ?thesis
        unfolding Cons by (subst json_escape.simps) (auto simp del: json_escape.simps)
    qed
  qed
qed

lemma json_Marshal_line: "json_Marshal h \<noteq> [] \<and> nl \<notin> set (json_Marshal h)"
proof -
  have "nl \<notin> set (itoa i)" for i
    using itoa_chars [of nl i] by (auto simp: is_digit_def byte_def)
  then show ?thesis
    by (simp add: json_Marshal_def json_escape_no_nl)
qed

subsection \<open>Encoding and decoding a record\<close>

lemma MarshalText_block:
  "MarshalText m =
     block (json_Marshal \<lparr>json_path = Path m, json_pos = Pos m, json_len = Len m\<rparr>) (Data m) @ [nl]"
  by (simp add: MarshalText_def block_def end_tag_def)

lemma FindAllBlocks_skip_all:
  "CHR ''#'' \<notin> set sep \<Longrightarrow> FindAllBlocks (sep @ rest) = FindAllBlocks rest"
proof (induction sep)
  case Nil
  show ?case by simp
next
  case (Cons c sep)
  then have "c \<noteq> CHR ''#''" "CHR ''#'' \<notin> set sep" by auto
  with Cons.IH FindAllBlocks_skip [of c "sep @ rest"] show ?case by simp
qed

lemma ParseMatches_MarshalText:
  assumes "\<forall>m \<in> set matches. utf8_valid (Path m) \<and> in_int (Pos m) \<and> in_int (Len m) \<and>
             \<not> within end_tag (Data m)"
    and "CHR ''#'' \<notin> set sep"
  shows "ParseMatches (concat (map (\<lambda>m. MarshalText m @ sep) matches)) = Inr matches"
  using assms(1)
proof (induction matches)
  case Nil
  show ?case by (simp add: ParseMatches_def)
next
  case (Cons m ms)
  let ?h = "\<lparr>json_path = Path m, json_pos = Pos m, json_len = Len m\<rparr>"
  let ?rest = "concat (map (\<lambda>m. MarshalText m @ sep) ms)"
  from Cons.prems have m: "utf8_valid (Path m)" "in_int (Pos m)" "in_int (Len m)"
    "\<not> within end_tag (Data m)" by simp_all
  from Cons.prems have IH: "ParseMatches ?rest = Inr ms"
    by (intro Cons.IH) simp
  have w: "well_formed_block (json_Marshal ?h) (Data m)"
    using json_Marshal_line [of ?h] m(4) by (simp add: well_formed_block_def)
  have j: "json_Unmarshal (json_Marshal ?h) = Inr ?h"
    using m by (intro json_round_trip) simp_all
  have "ParseMatches ((nl # sep) @ ?rest) = ParseMatches ?rest"
    unfolding ParseMatches_def using assms(2) by (subst FindAllBlocks_skip_all) simp_all
  with IH have r: "ParseMatches (nl # sep @ ?rest) = Inr ms" by simp
  have "ParseMatches (block (json_Marshal ?h) (Data m) @ nl # sep @ ?rest) = Inr (m # ms)"
    by (simp add: ParseMatches_block_gen [OF w] j r)
  then show ?case
    by (simp add: MarshalText_block)
qed

lemma FindAllIndexPath_in_int:
  assumes "FindAllIndexPath re files path = Inr ms"
    and "\<forall>data. ReadFile files path = Inr data \<longrightarrow> spans_ok data (re data)"
    and "m \<in> set ms"
  shows "in_int (Pos m) \<and> in_int (Len m)"
proof -
  from assms(1) obtain data where r: "ReadFile files path = Inr data"
    by (auto simp: FindAllIndexPath_def split: sum.splits)
  with assms(2) have ok: "spans_ok data (re data)" by simp
  from FindAllIndexPath_Inr [where re = re, OF r ok] assms(1,3)
  obtain sp where sp: "sp \<in> set (re data)" and m: "m = match_of path data sp"
    by auto
  from ok sp have "0 \<le> fst sp" "fst sp \<le> snd sp" "snd sp \<le> int (length data)"
    "int (length data) \<le> max_int"
    by (auto simp: spans_ok_def list_all_iff)
  then show ?thesis
    by (simp add: m in_int_def min_int_def)
qed

lemma FindAllIndexPaths_in_int:
  assumes "FindAllIndexPaths re files paths = Inr ms"
    and "\<forall>path \<in> set paths. \<forall>data. ReadFile files path = Inr data \<longrightarrow> spans_ok data (re data)"
    and "m \<in> set ms"
  shows "in_int (Pos m) \<and> in_int (Len m)"
  using assms
proof (induction paths arbitrary: ms)
  case Nil
  then show ?case by simp
next
  case (Cons p paths)
  from Cons.prems(1) obtain ms1 ms2 where
    a: "FindAllIndexPath re files p = Inr ms1" and b: "FindAllIndexPaths re files paths = Inr ms2"
    and ms: "ms = ms1 @ ms2"
    by (auto split: sum.splits)
  from Cons.prems(3) ms consider "m \<in> set ms1" | "m \<in> set ms2" by auto
  then show ?case
  proof cases
    case 1
    with a Cons.prems(2) show ?thesis
      by (intro FindAllIndexPath_in_int [where re = re and files = files and path = p and ms = ms1]) simp_all
  next
    case 2
    with b Cons.prems(2) show ?thesis
      by (intro Cons.IH [of ms2]) simp_all
  qed
qed

subsection \<open>The claims on the text format\<close>







text \<open>
  C3. The claim: the records of the Matcher, with their data as matched, come back from
  parsing their encoded blocks one after the other, equal in path, pos, len and data and in
  the same order. This fails for a match that holds a newline followed by \<open>#bed:end\<close>, whose
  data is cut there, and for a path that is not well-formed UTF-8, whose ill-formed bytes
  the JSON encoder replaces by U+FFFD (see the counterexample below). What holds: for a
  pattern whose spans lie inside the contents, records whose paths are well-formed UTF-8 and
  whose data hold no newline followed by \<open>#bed:end\<close> come back unchanged, from the plain
  concatenation of the blocks and from the text of the temporary file alike.
\<close>

theorem round_trip:
  assumes "FindAllIndexPaths re files paths = Inr matches"
    and "\<forall>path \<in> set paths. \<forall>data. ReadFile files path = Inr data \<longrightarrow> spans_ok data (re data)"
    and "\<forall>m \<in> set matches. utf8_valid (Path m) \<and> \<not> within end_tag (Data m)"
  shows "ParseMatches (concat (map MarshalText matches)) = Inr matches \<and>
         ParseMatches (temp_file_text matches) = Inr matches"
proof -
  have ok: "\<forall>m \<in> set matches. utf8_valid (Path m) \<and> in_int (Pos m) \<and> in_int (Len m) \<and>
              \<not> within end_tag (Data m)"
    using assms(3) FindAllIndexPaths_in_int [OF assms(1,2)] by blast
  from ParseMatches_MarshalText [OF ok, of "[]"] ParseMatches_MarshalText [OF ok, of "[nl]"]
  show ?thesis
    by (simp add: temp_file_text_def)
qed

theorem round_trip_witness:
  "FindAllIndexPaths (\<lambda>data. [(3, 4), (7, 8)])
     [''f'' \<mapsto> \<lparr>content = ''aaaXbbbXccc'', mode = 420\<rparr>] [''f'']
     = Inr [\<lparr>Path = ''f'', Pos = 3, Len = 1, Data = ''X''\<rparr>,
            \<lparr>Path = ''f'', Pos = 7, Len = 1, Data = ''X''\<rparr>] \<and>
   spans_ok ''aaaXbbbXccc'' [(3, 4), (7, 8)] \<and>
   utf8_valid ''f'' \<and> \<not> within end_tag ''X'' \<and>
   ParseMatches (concat (map MarshalText
     [\<lparr>Path = ''f'', Pos = 3, Len = 1, Data = ''X''\<rparr>,
      \<lparr>Path = ''f'', Pos = 7, Len = 1, Data = ''X''\<rparr>]))
     = Inr [\<lparr>Path = ''f'', Pos = 3, Len = 1, Data = ''X''\<rparr>,
            \<lparr>Path = ''f'', Pos = 7, Len = 1, Data = ''X''\<rparr>] \<and>
   ParseMatches (temp_file_text
     [\<lparr>Path = ''f'', Pos = 3, Len = 1, Data = ''X''\<rparr>,
      \<lparr>Path = ''f'', Pos = 7, Len = 1, Data = ''X''\<rparr>])
     = Inr [\<lparr>Path = ''f'', Pos = 3, Len = 1, Data = ''X''\<rparr>,
            \<lparr>Path = ''f'', Pos = 7, Len = 1, Data = ''X''\<rparr>]"
proof -
  let ?files = "[''f'' \<mapsto> \<lparr>content = ''aaaXbbbXccc'', mode = 420\<rparr>]"
  let ?re = "\<lambda>data :: string. [(3 :: int, 4 :: int), (7, 8)]"
  let ?ms = "[\<lparr>Path = ''f'', Pos = 3, Len = 1, Data = ''X''\<rparr>,
              \<lparr>Path = ''f'', Pos = 7, Len = 1, Data = ''X''\<rparr>]"
  have s: "spans_ok ''aaaXbbbXccc'' [(3, 4), (7, 8)]"
    by (simp add: spans_ok_def max_int_def)
  have u: "utf8_valid ''f''"
    by (simp add: utf8_size_def byte_def)
  have w: "\<not> within end_tag ''X''"
    by (simp add: end_tag_def)
  have h1: "FindAllIndexPaths ?re ?files [''f''] = Inr ?ms"
    by (simp add: FindAllIndexPath_def FindAllIndex_def FindAll_def ReadFile_def readable_def
        slice_def wrap_def)
  have h2: "\<forall>path \<in> set [''f'']. \<forall>data. ReadFile ?files path = Inr data \<longrightarrow> spans_ok data (?re data)"
    using s by (auto simp: ReadFile_def readable_def)
  have h3: "\<forall>m \<in> set ?ms. utf8_valid (Path m) \<and> \<not> within end_tag (Data m)"
    using u w by simp
  from round_trip [OF h1 h2 h3] h1 s u w show ?thesis
    by simp
qed

text \<open>
  The counterexample to C3 as stated: a match over the whole content \<open>a\<close>, newline,
  \<open>#bed:endb\<close> comes back with the data \<open>a\<close>; a record of the path made of the byte 0xFF
  comes back with the path U+FFFD.
\<close>

theorem round_trip_counterexample:
  "FindAllIndexPaths (\<lambda>data. [(0, 11)])
     [''g'' \<mapsto> \<lparr>content = ''a\<newline>#bed:endb'', mode = 420\<rparr>] [''g'']
     = Inr [\<lparr>Path = ''g'', Pos = 0, Len = 11, Data = ''a\<newline>#bed:endb''\<rparr>] \<and>
   spans_ok ''a\<newline>#bed:endb'' [(0, 11)] \<and>
   ParseMatches (concat (map MarshalText
     [\<lparr>Path = ''g'', Pos = 0, Len = 11, Data = ''a\<newline>#bed:endb''\<rparr>]))
     = Inr [\<lparr>Path = ''g'', Pos = 0, Len = 11, Data = ''a''\<rparr>] \<and>
   FindAllIndexPaths (\<lambda>data. [(0, 1)])
     [[CHR 0xFF] \<mapsto> \<lparr>content = ''x'', mode = 420\<rparr>] [[CHR 0xFF]]
     = Inr [\<lparr>Path = [CHR 0xFF], Pos = 0, Len = 1, Data = ''x''\<rparr>] \<and>
   spans_ok ''x'' [(0, 1)] \<and>
   ParseMatches (concat (map MarshalText
     [\<lparr>Path = [CHR 0xFF], Pos = 0, Len = 1, Data = ''x''\<rparr>]))
     = Inr [\<lparr>Path = [CHR 0xEF, CHR 0xBF, CHR 0xBD], Pos = 0, Len = 1, Data = ''x''\<rparr>]"
proof -
  have a: "FindAllIndexPaths (\<lambda>data. [(0, 11)])
     [''g'' \<mapsto> \<lparr>content = ''a\<newline>#bed:endb'', mode = 420\<rparr>] [''g'']
     = Inr [\<lparr>Path = ''g'', Pos = 0, Len = 11, Data = ''a\<newline>#bed:endb''\<rparr>]"
    by (simp add: FindAllIndexPath_def FindAllIndex_def FindAll_def ReadFile_def readable_def
        slice_def wrap_def)
  have b: "spans_ok ''a\<newline>#bed:endb'' [(0, 11)]" "spans_ok ''x'' [(0, 1)]"
    by (simp_all add: spans_ok_def max_int_def)
  have c: "ParseMatches (concat (map MarshalText
     [\<lparr>Path = ''g'', Pos = 0, Len = 11, Data = ''a\<newline>#bed:endb''\<rparr>]))
     = Inr [\<lparr>Path = ''g'', Pos = 0, Len = 11, Data = ''a''\<rparr>]"
    by code_simp
  have d: "FindAllIndexPaths (\<lambda>data. [(0, 1)])
     [[CHR 0xFF] \<mapsto> \<lparr>content = ''x'', mode = 420\<rparr>] [[CHR 0xFF]]
     = Inr [\<lparr>Path = [CHR 0xFF], Pos = 0, Len = 1, Data = ''x''\<rparr>]"
    by (simp add: FindAllIndexPath_def FindAllIndex_def FindAll_def ReadFile_def readable_def
        slice_def wrap_def)
  have e: "ParseMatches (concat (map MarshalText
     [\<lparr>Path = [CHR 0xFF], Pos = 0, Len = 1, Data = ''x''\<rparr>]))
     = Inr [\<lparr>Path = [CHR 0xEF, CHR 0xBF, CHR 0xBD], Pos = 0, Len = 1, Data = ''x''\<rparr>]"
    by code_simp
  from a b c d e show ?thesis by simp
qed

end
